theory Spec2Isabelle
  imports Main "HOL-Library.Multiset"
begin

section \<open>Go strings and UTF-8 decoding\<close>

text \<open>
  A Go string is a sequence of bytes; \<open>string\<close> (a list of 8-bit characters) models it,
  and every offset below is a byte offset, as in the source. The regular-expression
  library reads the input rune by rune with \<open>utf8.DecodeRuneInString\<close>: a byte below
  \<open>0x80\<close> is its own rune, a well-formed multi-byte sequence is one rune of width 2 to 4,
  and anything else is \<open>RuneError\<close> of width 1.
\<close>

type_synonym rune = nat

definition RuneError :: rune where
  "RuneError = 0xFFFD"

definition byte_at :: "string \<Rightarrow> nat \<Rightarrow> nat" where
  "byte_at s i = of_char (s ! i)"

text \<open>
  \<open>decode_seq\<close> is the multi-byte part of the decoder: \<open>sz\<close> is the length the first
  byte announces and \<open>lo\<close>, \<open>hi\<close> bound its second byte (the library's \<open>acceptRanges\<close>,
  which exclude overlong forms, surrogates and values past \<open>U+10FFFF\<close>).
\<close>

definition decode_seq :: "string \<Rightarrow> nat \<Rightarrow> nat \<Rightarrow> nat \<Rightarrow> nat \<Rightarrow> nat \<Rightarrow> rune \<times> nat" where
  "decode_seq s i s0 sz lo hi =
     (if length s - i < sz then (RuneError, 1)
      else
        let s1 = byte_at s (i + 1) in
        if s1 < lo \<or> hi < s1 then (RuneError, 1)
        else if sz \<le> 2 then ((s0 mod 32) * 64 + s1 mod 64, 2)
        else
          let s2 = byte_at s (i + 2) in
          if s2 < 0x80 \<or> 0xBF < s2 then (RuneError, 1)
          else if sz \<le> 3 then ((s0 mod 16) * 4096 + (s1 mod 64) * 64 + s2 mod 64, 3)
          else
            let s3 = byte_at s (i + 3) in
            if s3 < 0x80 \<or> 0xBF < s3 then (RuneError, 1)
            else ((s0 mod 8) * 262144 + (s1 mod 64) * 4096 + (s2 mod 64) * 64
                    + s3 mod 64, 4))"

definition decode_rune :: "string \<Rightarrow> nat \<Rightarrow> rune \<times> nat" where
  "decode_rune s i =
     (let s0 = byte_at s i in
      if s0 < 0x80 then (s0, 1)
      else if s0 < 0xC2 \<or> 0xF4 < s0 then (RuneError, 1)
      else decode_seq s i s0
             (if s0 < 0xE0 then 2 else if s0 < 0xF0 then 3 else 4)
             (if s0 = 0xE0 then 0xA0 else if s0 = 0xF0 then 0x90 else 0x80)
             (if s0 = 0xED then 0x9F else if s0 = 0xF4 then 0x8F else 0xBF))"

text \<open>\<open>step\<close> is the input's \<open>step(pos)\<close>: the rune at \<open>pos\<close> and its width, nothing at the end.\<close>

definition step :: "string \<Rightarrow> nat \<Rightarrow> (rune \<times> nat) option" where
  "step s i = (if i < length s then Some (decode_rune s i) else None)"

lemma decode_seq_width:
  assumes "2 \<le> sz" "sz \<le> 4"
  shows "snd (decode_seq s i s0 sz lo hi) = 1
         \<or> (snd (decode_seq s i s0 sz lo hi) = sz \<and> sz \<le> length s - i)"
proof (cases "length s - i < sz")
  case True
  then show ?thesis by (simp add: decode_seq_def)
next
  case False
  from assms have "sz = 2 \<or> sz = 3 \<or> sz = 4" by arith
  then show ?thesis
  proof (elim disjE)
    assume "sz = 2" with False show ?thesis by (simp add: decode_seq_def Let_def)
  next
    assume "sz = 3" with False show ?thesis by (simp add: decode_seq_def Let_def)
  next
    assume "sz = 4" with False show ?thesis by (simp add: decode_seq_def Let_def)
  qed
qed

lemma decode_rune_width:
  "i < length s \<Longrightarrow> 0 < snd (decode_rune s i) \<and> i + snd (decode_rune s i) \<le> length s"
proof -
  assume i: "i < length s"
  let ?s0 = "byte_at s i"
  show ?thesis
  proof (cases "?s0 < 0x80 \<or> ?s0 < 0xC2 \<or> 0xF4 < ?s0")
    case True
    with i show ?thesis by (auto simp: decode_rune_def Let_def)
  next
    case False
    let ?sz = "if ?s0 < 0xE0 then 2 else if ?s0 < 0xF0 then 3 else (4::nat)"
    let ?lo = "if ?s0 = 0xE0 then 0xA0 else if ?s0 = 0xF0 then 0x90 else (0x80::nat)"
    let ?hi = "if ?s0 = 0xED then 0x9F else if ?s0 = 0xF4 then 0x8F else (0xBF::nat)"
    from False have eq: "decode_rune s i = decode_seq s i ?s0 ?sz ?lo ?hi"
      by (simp add: decode_rune_def Let_def)
    have "2 \<le> ?sz" "?sz \<le> 4" by simp_all
    from decode_seq_width[OF this, of s i ?s0 ?lo ?hi] eq i show ?thesis by auto
  qed
qed

lemma step_bounds: "step s i = Some (r, w) \<Longrightarrow> 0 < w \<and> i + w \<le> length s"
  using decode_rune_width[of i s] by (auto simp: step_def split: if_splits)

text \<open>
  \<open>\b\<close> is the ASCII word boundary: the runes on the two sides differ in being one of
  \<open>[0-9A-Za-z_]\<close>. A byte of \<open>0x80\<close> or more never decodes to an ASCII rune, so the test
  on the neighbouring bytes is the test on the neighbouring runes.
\<close>

definition is_word_char :: "rune \<Rightarrow> bool" where
  "is_word_char r = ((0x41 \<le> r \<and> r \<le> 0x5A) \<or> (0x61 \<le> r \<and> r \<le> 0x7A)
                      \<or> (0x30 \<le> r \<and> r \<le> 0x39) \<or> r = 0x5F)"

definition word_before :: "string \<Rightarrow> nat \<Rightarrow> bool" where
  "word_before s i = (0 < i \<and> i \<le> length s \<and> is_word_char (byte_at s (i - 1)))"

definition word_after :: "string \<Rightarrow> nat \<Rightarrow> bool" where
  "word_after s i = (i < length s \<and> is_word_char (byte_at s i))"

definition word_boundary :: "string \<Rightarrow> nat \<Rightarrow> bool" where
  "word_boundary s i = (word_before s i \<noteq> word_after s i)"

section \<open>Regular expressions with leftmost-first matching\<close>

text \<open>
  The patterns of the source use literals, one-rune classes, \<open>\b\<close>, concatenation, the greedy
  \<open>x?\<close>, the greedy \<open>[...]+\<close> of a class, the counted \<open>x{n}\<close> and capture groups.
  \<open>ms r s (i, cs)\<close> lists, in the order a backtracking matcher tries them, every way
  \<open>r\<close> matches \<open>s\<close> from byte \<open>i\<close>: the end offset and the capture groups recorded so
  far. Go's regexp promises the match "that a backtracking search would have found
  first" (leftmost-first), which is the head of that list at the leftmost start.
\<close>

datatype rx =
    Eps
  | Cls "rune \<Rightarrow> bool"
  | WordB
  | Cat rx rx
  | Quest rx
  | PlusC "rune \<Rightarrow> bool"
  | Times nat rx
  | Cap nat rx

type_synonym caps = "(nat \<times> nat \<times> nat) list"
type_synonym thread = "nat \<times> caps"

function run_ends :: "(rune \<Rightarrow> bool) \<Rightarrow> string \<Rightarrow> nat \<Rightarrow> nat list" where
  "run_ends c s i =
     (case step s i of
        None \<Rightarrow> []
      | Some (r, w) \<Rightarrow> if c r then (i + w) # run_ends c s (i + w) else [])"
  by pat_completeness auto
termination
proof (relation "measure (\<lambda>(c, s, i). length s - i)", goal_cases)
  case 1
  show ?case by simp
next
  case (2 c s i x2 r w)
  then show ?case using step_bounds[of s i r w] by auto
qed

fun rx_weight :: "rx \<Rightarrow> nat" where
  "rx_weight Eps = 0"
| "rx_weight (Cls c) = 0"
| "rx_weight WordB = 0"
| "rx_weight (Cat a b) = Suc (rx_weight a + rx_weight b)"
| "rx_weight (Quest a) = Suc (rx_weight a)"
| "rx_weight (PlusC c) = 0"
| "rx_weight (Times n a) = Suc (n + rx_weight a)"
| "rx_weight (Cap k a) = Suc (rx_weight a)"

function ms :: "rx \<Rightarrow> string \<Rightarrow> thread \<Rightarrow> thread list" where
  "ms Eps s t = [t]"
| "ms (Cls c) s (i, cs) =
     (case step s i of
        None \<Rightarrow> []
      | Some (r, w) \<Rightarrow> if c r then [(i + w, cs)] else [])"
| "ms WordB s (i, cs) = (if word_boundary s i then [(i, cs)] else [])"
| "ms (Cat a b) s t = concat (map (ms b s) (ms a s t))"
| "ms (Quest a) s t = ms a s t @ [t]"
| "ms (PlusC c) s (i, cs) = map (\<lambda>e. (e, cs)) (rev (run_ends c s i))"
| "ms (Times 0 a) s t = [t]"
| "ms (Times (Suc n) a) s t = concat (map (ms (Times n a) s) (ms a s t))"
| "ms (Cap k a) s (i, cs) = map (\<lambda>(e, cs'). (e, (k, i, e) # cs')) (ms a s (i, cs))"
  by pat_completeness auto
termination
  by (relation "measure (\<lambda>(r, s, t). rx_weight r)") auto

text \<open>
  The unanchored search tries each rune boundary from \<open>pos\<close> on, the end of the text
  included, and stops at the first start that matches.
\<close>

function find_from :: "rx \<Rightarrow> string \<Rightarrow> nat \<Rightarrow> (nat \<times> nat \<times> caps) option" where
  "find_from r s pos =
     (case ms r s (pos, []) of
        (e, cs) # _ \<Rightarrow> Some (pos, e, cs)
      | [] \<Rightarrow>
         (case step s pos of
            None \<Rightarrow> None
          | Some (_, w) \<Rightarrow> find_from r s (pos + w)))"
  by pat_completeness auto
termination
proof (relation "measure (\<lambda>(r, s, pos). length s - pos)", goal_cases)
  case 1
  show ?case by simp
next
  case (2 r s pos x2 x y)
  then show ?case using step_bounds[of s pos x y] by auto
qed

declare run_ends.simps [simp del]
declare find_from.simps [simp del]

lemma run_ends_None: "step s i = None \<Longrightarrow> run_ends c s i = []"
  by (subst run_ends.simps) simp

lemma run_ends_Some:
  "step s i = Some (r, w) \<Longrightarrow>
   run_ends c s i = (if c r then (i + w) # run_ends c s (i + w) else [])"
  by (subst run_ends.simps) simp

lemma run_ends_bounds: "e \<in> set (run_ends c s i) \<Longrightarrow> i < e \<and> e \<le> length s"
proof (induction c s i rule: run_ends.induct)
  case (1 c s i)
  show ?case
  proof (cases "step s i")
    case None
    with "1.prems" show ?thesis by (simp add: run_ends_None)
  next
    case (Some rw)
    obtain r w where rw: "rw = (r, w)" by (cases rw)
    have st: "step s i = Some (r, w)" using Some rw by simp
    have b: "0 < w \<and> i + w \<le> length s" using st step_bounds by simp
    show ?thesis
    proof (cases "c r")
      case True
      with "1.prems" have "e = i + w \<or> e \<in> set (run_ends c s (i + w))"
        by (simp add: run_ends_Some[OF st])
      then show ?thesis
      proof
        assume "e = i + w" with b show ?thesis by simp
      next
        assume "e \<in> set (run_ends c s (i + w))"
        with "1.IH"[OF Some rw[symmetric] True] have "i + w < e \<and> e \<le> length s" by simp
        with b show ?thesis by simp
      qed
    next
      case False
      with "1.prems" show ?thesis by (simp add: run_ends_Some[OF st])
    qed
  qed
qed

lemma in_concat_map:
  "x \<in> set (concat (map f xs)) \<Longrightarrow> \<exists>y \<in> set xs. x \<in> set (f y)"
  by auto

lemma ms_bounds:
  "(e, cs') \<in> set (ms r s (i, cs)) \<Longrightarrow> i \<le> e \<and> (i \<le> length s \<longrightarrow> e \<le> length s)"
proof (induction r arbitrary: i cs e cs')
  case Eps
  then show ?case by simp
next
  case (Cls c)
  show ?case
  proof (cases "step s i")
    case None
    with Cls show ?thesis by simp
  next
    case (Some rw)
    obtain r w where rw: "rw = (r, w)" by (cases rw)
    from Cls Some rw have "e = i + w" by (simp split: if_splits)
    with step_bounds[of s i r w] Some rw show ?thesis by simp
  qed
next
  case WordB
  then show ?case by (simp split: if_splits)
next
  case (Cat a b)
  from Cat.prems have "(e, cs') \<in> set (concat (map (ms b s) (ms a s (i, cs))))" by simp
  from in_concat_map[OF this] obtain t where t: "t \<in> set (ms a s (i, cs))"
    and e: "(e, cs') \<in> set (ms b s t)" by blast
  obtain m cm where tm: "t = (m, cm)" by (cases t)
  from Cat.IH(1)[of m cm i cs] t tm have 1: "i \<le> m \<and> (i \<le> length s \<longrightarrow> m \<le> length s)" by simp
  from Cat.IH(2)[of e cs' m cm] e tm have 2: "m \<le> e \<and> (m \<le> length s \<longrightarrow> e \<le> length s)" by simp
  from 1 2 show ?case by simp
next
  case (Quest a)
  from Quest.prems have "(e, cs') \<in> set (ms a s (i, cs)) \<or> (e, cs') = (i, cs)" by auto
  then show ?case
  proof
    assume "(e, cs') \<in> set (ms a s (i, cs))"
    from Quest.IH[OF this] show ?thesis .
  next
    assume "(e, cs') = (i, cs)"
    then show ?thesis by simp
  qed
next
  case (PlusC c)
  from PlusC have "e \<in> set (run_ends c s i)" by (simp add: image_iff)
  from run_ends_bounds[OF this] show ?case by simp
next
  case (Times n a)
  from Times.prems show ?case
  proof (induction n arbitrary: i cs)
    case 0
    then show ?case by simp
  next
    case (Suc n)
    from Suc.prems have "(e, cs') \<in> set (concat (map (ms (Times n a) s) (ms a s (i, cs))))"
      by simp
    from in_concat_map[OF this] obtain t where t: "t \<in> set (ms a s (i, cs))"
      and e: "(e, cs') \<in> set (ms (Times n a) s t)" by blast
    obtain m cm where tm: "t = (m, cm)" by (cases t)
    from Times.IH[of m cm i cs] t tm have 1: "i \<le> m \<and> (i \<le> length s \<longrightarrow> m \<le> length s)" by simp
    from Suc.IH[of m cm] e tm have 2: "m \<le> e \<and> (m \<le> length s \<longrightarrow> e \<le> length s)" by simp
    from 1 2 show ?case by simp
  qed
next
  case (Cap k a)
  from Cap.prems obtain c0 where "(e, c0) \<in> set (ms a s (i, cs))" by (auto simp: image_iff)
  from Cap.IH[OF this] show ?case .
qed

lemma find_from_Cons:
  "ms r s (pos, []) = (e, cs) # ts \<Longrightarrow> find_from r s pos = Some (pos, e, cs)"
  by (subst find_from.simps) simp

lemma find_from_Nil:
  "ms r s (pos, []) = [] \<Longrightarrow>
   find_from r s pos = (case step s pos of None \<Rightarrow> None | Some (x, w) \<Rightarrow> find_from r s (pos + w))"
  by (subst find_from.simps) simp

lemma find_from_bounds:
  "find_from r s pos = Some (b, e, cs) \<Longrightarrow>
   pos \<le> b \<and> b \<le> e \<and> (b \<le> length s \<longrightarrow> e \<le> length s)"
proof (induction r s pos rule: find_from.induct)
  case (1 r s pos)
  show ?case
  proof (cases "ms r s (pos, [])")
    case Nil
    show ?thesis
    proof (cases "step s pos")
      case None
      with Nil "1.prems" show ?thesis by (simp add: find_from_Nil)
    next
      case (Some rw)
      obtain x w where rw: "rw = (x, w)" by (cases rw)
      from Nil Some rw "1.prems" have "find_from r s (pos + w) = Some (b, e, cs)"
        by (simp add: find_from_Nil)
      with "1.IH"[OF Nil Some rw[symmetric]] show ?thesis by simp
    qed
  next
    case (Cons t ts)
    obtain e0 c0 where t: "t = (e0, c0)" by (cases t)
    from Cons t "1.prems" have eq: "b = pos" "e = e0" "cs = c0"
      using find_from_Cons[of r s pos e0 c0 ts] by simp_all
    from Cons t have "(e0, c0) \<in> set (ms r s (pos, []))" by simp
    from ms_bounds[OF this] eq show ?thesis by simp
  qed
qed

text \<open>
  \<open>all_matches\<close> is the loop of the library's \<open>allMatches\<close> behind the \<open>FindAll\<close> functions
  (called with \<open>n = -1\<close>, which bounds nothing): search from \<open>pos\<close>, deliver the match and
  go on from its end; an empty match moves one rune forward, and is dropped when it
  touches the previous match.
\<close>

function all_matches :: "rx \<Rightarrow> string \<Rightarrow> nat \<Rightarrow> nat option \<Rightarrow> (nat \<times> nat \<times> caps) list" where
  "all_matches r s pos prevMatchEnd =
     (if length s < pos then []
      else
        (case find_from r s pos of
           None \<Rightarrow> []
         | Some (b, e, cs) \<Rightarrow>
             if e = pos then
               (let rest = (case step s pos of
                              None \<Rightarrow> []
                            | Some (_, w) \<Rightarrow> all_matches r s (pos + w) (Some e))
                in if Some b = prevMatchEnd then rest else (b, e, cs) # rest)
             else (b, e, cs) # all_matches r s e (Some e)))"
  by pat_completeness auto
termination
proof (relation "measure (\<lambda>(r, s, pos, p). Suc (length s) - pos)", goal_cases)
  case 1
  show ?case by simp
next
  case (2 r s pos prevMatchEnd x2 b y e cs x2a x y)
  then show ?case using step_bounds[of s pos] by auto
next
  case (3 r s pos prevMatchEnd x2 b y e cs)
  then show ?case using find_from_bounds[of r s pos b e cs] by auto
qed

declare all_matches.simps [simp del]

lemma all_matches_unfold:
  "all_matches r s pos prevMatchEnd =
     (if length s < pos then []
      else
        (case find_from r s pos of
           None \<Rightarrow> []
         | Some (b, e, cs) \<Rightarrow>
             if e = pos then
               (let rest = (case step s pos of
                              None \<Rightarrow> []
                            | Some (x, w) \<Rightarrow> all_matches r s (pos + w) (Some e))
                in if Some b = prevMatchEnd then rest else (b, e, cs) # rest)
             else (b, e, cs) # all_matches r s e (Some e)))"
  by (subst all_matches.simps) simp

text \<open>
  \<open>FindAllStringIndex\<close> returns for each match the pair \<open>[m[0], m[1]]\<close> of its start and
  end; \<open>FindAllStringSubmatchIndex\<close> appends the start and end of each capture group,
  \<open>-1\<close> for a group that took no part (the library's \<open>pad\<close>).
\<close>

fun ncap :: "rx \<Rightarrow> nat" where
  "ncap Eps = 0"
| "ncap (Cls c) = 0"
| "ncap WordB = 0"
| "ncap (Cat a b) = max (ncap a) (ncap b)"
| "ncap (Quest a) = ncap a"
| "ncap (PlusC c) = 0"
| "ncap (Times n a) = ncap a"
| "ncap (Cap k a) = max k (ncap a)"

definition group_index :: "caps \<Rightarrow> nat \<Rightarrow> int list" where
  "group_index cs k = (case map_of cs k of None \<Rightarrow> [-1, -1] | Some (b, e) \<Rightarrow> [int b, int e])"

definition FindAllStringIndex :: "rx \<Rightarrow> string \<Rightarrow> int list list" where
  "FindAllStringIndex r s = map (\<lambda>(b, e, cs). [int b, int e]) (all_matches r s 0 None)"

definition FindAllStringSubmatchIndex :: "rx \<Rightarrow> string \<Rightarrow> int list list" where
  "FindAllStringSubmatchIndex r s =
     map (\<lambda>(b, e, cs). [int b, int e] @ concat (map (group_index cs) [1 ..< Suc (ncap r)]))
       (all_matches r s 0 None)"

section \<open>The patterns of the recognizer\<close>

definition rng :: "char \<Rightarrow> char \<Rightarrow> rune \<Rightarrow> bool" where
  "rng lo hi r = (of_char lo \<le> r \<and> r \<le> of_char hi)"

definition lit :: "char \<Rightarrow> rx" where
  "lit c = Cls (\<lambda>r. r = of_char c)"

text \<open>Under \<open>(?i)\<close> a letter stands for its case-folding orbit; for the letters of the
  keywords that is the upper-case and the lower-case letter.\<close>

definition liti :: "char \<Rightarrow> char \<Rightarrow> rx" where
  "liti up lo = Cls (\<lambda>r. r = of_char up \<or> r = of_char lo)"

fun lits :: "string \<Rightarrow> rx" where
  "lits [] = Eps"
| "lits (c # cs) = Cat (lit c) (lits cs)"

fun cats :: "rx list \<Rightarrow> rx" where
  "cats [] = Eps"
| "cats (r # rs) = Cat r (cats rs)"

text \<open>\<open>\s\<close> is \<open>[\t\n\f\r ]\<close> and \<open>\d\<close> is \<open>[0-9]\<close>: both ASCII only.\<close>

definition cls_space :: "rune \<Rightarrow> bool" where
  "cls_space r = (r = 0x09 \<or> r = 0x0A \<or> r = 0x0C \<or> r = 0x0D \<or> r = 0x20)"

definition cls_digit :: "rune \<Rightarrow> bool" where
  "cls_digit r = rng CHR ''0'' CHR ''9'' r"

definition cls_upper :: "rune \<Rightarrow> bool" where
  "cls_upper r = rng CHR ''A'' CHR ''Z'' r"

definition cls_alpha :: "rune \<Rightarrow> bool" where
  "cls_alpha r = (rng CHR ''a'' CHR ''z'' r \<or> rng CHR ''A'' CHR ''Z'' r)"

definition cls_upper_digit :: "rune \<Rightarrow> bool" where
  "cls_upper_digit r = (rng CHR ''A'' CHR ''Z'' r \<or> rng CHR ''0'' CHR ''9'' r)"

text \<open>\<open>[a-zA-Z0-9._%+\-]\<close> and \<open>[a-zA-Z0-9.\-]\<close>.\<close>

definition cls_email_local :: "rune \<Rightarrow> bool" where
  "cls_email_local r = (rng CHR ''a'' CHR ''z'' r \<or> rng CHR ''A'' CHR ''Z'' r
     \<or> rng CHR ''0'' CHR ''9'' r \<or> r \<in> set (map of_char ''._%+-''))"

definition cls_email_domain :: "rune \<Rightarrow> bool" where
  "cls_email_domain r = (rng CHR ''a'' CHR ''z'' r \<or> rng CHR ''A'' CHR ''Z'' r
     \<or> rng CHR ''0'' CHR ''9'' r \<or> r \<in> set (map of_char ''.-''))"

text \<open>The negated class of the URL pattern: anything but \<open>\s\<close>, \<open><\<close>, \<open>>\<close>, the double
  quote (\<open>0x22\<close>), \<open>{\<close>, \<open>}\<close>, \<open>|\<close>, the backslash (\<open>0x5C\<close>), \<open>^\<close>, the backquote
  (\<open>0x60\<close>) and the space.\<close>

definition url_excluded :: "rune \<Rightarrow> bool" where
  "url_excluded r = (cls_space r \<or> r = 0x3C \<or> r = 0x3E \<or> r = 0x22 \<or> r = 0x7B \<or> r = 0x7D
     \<or> r = 0x7C \<or> r = 0x5C \<or> r = 0x5E \<or> r = 0x60 \<or> r = 0x20)"

definition cls_url :: "rune \<Rightarrow> bool" where
  "cls_url r = (\<not> url_excluded r)"

text \<open>\<open>[A-HJ-NP-Z0-9]\<close>, and the same class under \<open>(?i)\<close>: the parser adds the case-folding
  orbit of every member, which is the lower-case letter and, for \<open>K\<close> and \<open>S\<close>, the
  Kelvin sign \<open>U+212A\<close> and the long s \<open>U+017F\<close>.\<close>

definition cls_fin :: "rune \<Rightarrow> bool" where
  "cls_fin r = (rng CHR ''A'' CHR ''H'' r \<or> rng CHR ''J'' CHR ''N'' r
     \<or> rng CHR ''P'' CHR ''Z'' r \<or> rng CHR ''0'' CHR ''9'' r)"

definition cls_fin_fold :: "rune \<Rightarrow> bool" where
  "cls_fin_fold r = (cls_fin r \<or> rng CHR ''a'' CHR ''h'' r \<or> rng CHR ''j'' CHR ''n'' r
     \<or> rng CHR ''p'' CHR ''z'' r \<or> r = 0x212A \<or> r = 0x17F)"

text \<open>\<open>[:\s]\<close>, and the class of O-umlaut (\<open>U+00D6\<close>) and \<open>O\<close> under \<open>(?i)\<close>, which adds
  the two lower-case letters.\<close>

definition cls_colon_space :: "rune \<Rightarrow> bool" where
  "cls_colon_space r = (r = of_char CHR '':'' \<or> cls_space r)"

definition cls_o_fold :: "rune \<Rightarrow> bool" where
  "cls_o_fold r = (r = 0xD6 \<or> r = 0xF6 \<or> r = of_char CHR ''O'' \<or> r = of_char CHR ''o'')"

text \<open>The ten patterns, each with its source text. The groups of the phone patterns are
  never read (\<open>FindAllStringIndex\<close>).
  \<^verbatim>\<open>rePhoneIntl = \+994\s?(\d{2})\s?(\d{3})\s?(\d{2})\s?(\d{2})\<close>\<close>

definition rePhoneIntl :: rx where
  "rePhoneIntl = cats [lits ''+994'', Quest (Cls cls_space), Cap 1 (Times 2 (Cls cls_digit)),
     Quest (Cls cls_space), Cap 2 (Times 3 (Cls cls_digit)),
     Quest (Cls cls_space), Cap 3 (Times 2 (Cls cls_digit)),
     Quest (Cls cls_space), Cap 4 (Times 2 (Cls cls_digit))]"

text \<open>\<^verbatim>\<open>rePhoneLocal = \b0(\d{2})\s?(\d{3})\s?(\d{2})\s?(\d{2})\b\<close>\<close>

definition rePhoneLocal :: rx where
  "rePhoneLocal = cats [WordB, lit CHR ''0'', Cap 1 (Times 2 (Cls cls_digit)),
     Quest (Cls cls_space), Cap 2 (Times 3 (Cls cls_digit)),
     Quest (Cls cls_space), Cap 3 (Times 2 (Cls cls_digit)),
     Quest (Cls cls_space), Cap 4 (Times 2 (Cls cls_digit)), WordB]"

text \<open>\<^verbatim>\<open>reEmail = [a-zA-Z0-9._%+\-]+@[a-zA-Z0-9.\-]+\.[a-zA-Z]{2,}\<close>, where
  \<open>[a-zA-Z]{2,}\<close> is two letters and then as many as there are.\<close>

definition reEmail :: rx where
  "reEmail = cats [PlusC cls_email_local, lit CHR ''@'', PlusC cls_email_domain, lit CHR ''.'',
     Cls cls_alpha, PlusC cls_alpha]"

text \<open>\<^verbatim>\<open>reURL = https?://[^\s<>"{}|\\^` ]+\<close>\<close>

definition reURL :: rx where
  "reURL = cats [lits ''http'', Quest (lit CHR ''s''), lits ''://'', PlusC cls_url]"

text \<open>\<^verbatim>\<open>reIBAN = \bAZ\d{2}[A-Z]{4}[A-Z0-9]{20}\b\<close>\<close>

definition reIBAN :: rx where
  "reIBAN = cats [WordB, lits ''AZ'', Times 2 (Cls cls_digit), Times 4 (Cls cls_upper),
     Times 20 (Cls cls_upper_digit), WordB]"

text \<open>\<^verbatim>\<open>reLicensePlate = \b\d{2}-[A-Z]{2}-\d{3}\b\<close>\<close>

definition reLicensePlate :: rx where
  "reLicensePlate = cats [WordB, Times 2 (Cls cls_digit), lit CHR ''-'', Times 2 (Cls cls_upper),
     lit CHR ''-'', Times 3 (Cls cls_digit), WordB]"

text \<open>\<^verbatim>\<open>reFINLabeled = (?i)\bFIN[:\s]\s?([A-HJ-NP-Z0-9]{7})\b\<close>\<close>

definition reFINLabeled :: rx where
  "reFINLabeled = cats [WordB, liti CHR ''F'' CHR ''f'', liti CHR ''I'' CHR ''i'',
     liti CHR ''N'' CHR ''n'', Cls cls_colon_space, Quest (Cls cls_space),
     Cap 1 (Times 7 (Cls cls_fin_fold)), WordB]"

text \<open>\<^verbatim>\<open>reFINBare = \b[A-HJ-NP-Z0-9]{7}\b\<close>\<close>

definition reFINBare :: rx where
  "reFINBare = cats [WordB, Times 7 (Cls cls_fin), WordB]"

text \<open>\<^verbatim>\<open>reVOENLabeled = (?i)\bV[.O]EN[:\s]\s?(\d{10})\b\<close>, with O-umlaut where the
  dot stands.\<close>

definition reVOENLabeled :: rx where
  "reVOENLabeled = cats [WordB, liti CHR ''V'' CHR ''v'', Cls cls_o_fold,
     liti CHR ''E'' CHR ''e'', liti CHR ''N'' CHR ''n'', Cls cls_colon_space,
     Quest (Cls cls_space), Cap 1 (Times 10 (Cls cls_digit)), WordB]"

text \<open>\<^verbatim>\<open>reVOENBare = \b\d{10}\b\<close>\<close>

definition reVOENBare :: rx where
  "reVOENBare = cats [WordB, Times 10 (Cls cls_digit), WordB]"

section \<open>Entities and the matchers\<close>

text \<open>
  Modelled from the spec: the declarations of \<open>Entity\<close> and \<open>EntityType\<close> are not in the
  source file of the recognizer. The spec gives the fields \<open>text\<close>, \<open>start\<close>, \<open>end\<close>,
  \<open>type\<close> and \<open>labeled\<close> and the seven types; the source writes them \<open>Text\<close>, \<open>Start\<close>,
  \<open>End\<close>, \<open>Type\<close>, \<open>Labeled\<close> and assigns \<open>int\<close> offsets to \<open>Start\<close> and \<open>End\<close>.
\<close>

datatype EntityType = Phone | Email | URL | IBAN | LicensePlate | FIN | VOEN

record Entity =
  Text :: string
  Start :: int
  End :: int
  Type :: EntityType
  Labeled :: bool

text \<open>
  \<open>slice s a b\<close> is the slice expression \<open>s[a:b]\<close>, which Go evaluates only for
  \<open>0 \<le> a \<le> b \<le> len(s)\<close> and panics otherwise. The matchers slice at offsets the
  pattern library returned; \<open>cand_ok\<close> below states that these are in range.
\<close>

definition slice :: "string \<Rightarrow> int \<Rightarrow> int \<Rightarrow> string" where
  "slice s a b = take (nat (b - a)) (drop (nat a) s)"

text \<open>\<open>strings.TrimRight\<close> with an ASCII cutset removes the trailing bytes that are in it.\<close>

definition TrimRight :: "string \<Rightarrow> string \<Rightarrow> string" where
  "TrimRight s cutset = rev (dropWhile (\<lambda>c. c \<in> set cutset) (rev s))"

definition entity_of :: "string \<Rightarrow> EntityType \<Rightarrow> int list \<Rightarrow> Entity" where
  "entity_of s ty m =
     \<lparr>Text = slice s (m ! 0) (m ! 1), Start = m ! 0, End = m ! 1, Type = ty, Labeled = False\<rparr>"

definition matchPhone :: "string \<Rightarrow> Entity list" where
  "matchPhone s =
     map (entity_of s Phone) (FindAllStringIndex rePhoneIntl s)
     @ map (entity_of s Phone) (FindAllStringIndex rePhoneLocal s)"

definition matchEmail :: "string \<Rightarrow> Entity list" where
  "matchEmail s = map (entity_of s Email) (FindAllStringIndex reEmail s)"

definition matchURL :: "string \<Rightarrow> Entity list" where
  "matchURL s =
     map (\<lambda>m. let text = TrimRight (slice s (m ! 0) (m ! 1)) ''.,;:!?)]}>'';
                   end = m ! 0 + int (length text)
               in \<lparr>Text = text, Start = m ! 0, End = end, Type = URL, Labeled = False\<rparr>)
       (FindAllStringIndex reURL s)"

definition matchIBAN :: "string \<Rightarrow> Entity list" where
  "matchIBAN s = map (entity_of s IBAN) (FindAllStringIndex reIBAN s)"

definition matchLicensePlate :: "string \<Rightarrow> Entity list" where
  "matchLicensePlate s = map (entity_of s LicensePlate) (FindAllStringIndex reLicensePlate s)"

definition labeled_entity_of :: "string \<Rightarrow> EntityType \<Rightarrow> int list \<Rightarrow> Entity" where
  "labeled_entity_of s ty sub =
     \<lparr>Text = slice s (sub ! 2) (sub ! 3), Start = sub ! 2, End = sub ! 3, Type = ty,
      Labeled = True\<rparr>"

definition matchFIN :: "string \<Rightarrow> Entity list" where
  "matchFIN s =
     map (labeled_entity_of s FIN) (FindAllStringSubmatchIndex reFINLabeled s)
     @ map (entity_of s FIN) (FindAllStringIndex reFINBare s)"

definition matchVOEN :: "string \<Rightarrow> Entity list" where
  "matchVOEN s =
     map (labeled_entity_of s VOEN) (FindAllStringSubmatchIndex reVOENLabeled s)
     @ map (entity_of s VOEN) (FindAllStringIndex reVOENBare s)"

section \<open>Sorting and overlap resolution\<close>

text \<open>
  \<open>sort.Slice\<close> belongs to Go's library. Its documentation promises a sorted permutation
  for a \<open>less\<close> function that is a strict weak ordering, and no stability. The recognizer is
  therefore modelled over any sorting function \<open>srt\<close> that keeps this promise (\<open>sorts\<close>);
  \<open>insertionSort\<close>, the library's own method for slices of at most 12 elements, is one.
\<close>

definition strict_weak :: "('a \<Rightarrow> 'a \<Rightarrow> bool) \<Rightarrow> bool" where
  "strict_weak lt =
     ((\<forall>a. \<not> lt a a) \<and> (\<forall>a b c. lt a b \<and> lt b c \<longrightarrow> lt a c)
      \<and> (\<forall>a b c. \<not> lt a b \<and> \<not> lt b c \<longrightarrow> \<not> lt a c))"

definition sorts :: "(('a \<Rightarrow> 'a \<Rightarrow> bool) \<Rightarrow> 'a list \<Rightarrow> 'a list) \<Rightarrow> bool" where
  "sorts srt =
     (\<forall>lt xs. strict_weak lt \<longrightarrow>
        mset (srt lt xs) = mset xs \<and> sorted_wrt (\<lambda>a b. \<not> lt b a) (srt lt xs))"

text \<open>\<open>insert_last lt x ys\<close> moves \<open>x\<close>, appended to the sorted prefix whose reverse is
  \<open>ys\<close>, to the left while it is less than its left neighbour.\<close>

fun insert_last :: "('a \<Rightarrow> 'a \<Rightarrow> bool) \<Rightarrow> 'a \<Rightarrow> 'a list \<Rightarrow> 'a list" where
  "insert_last lt x [] = [x]"
| "insert_last lt x (y # ys) = (if lt x y then y # insert_last lt x ys else x # y # ys)"

definition insertionSort :: "('a \<Rightarrow> 'a \<Rightarrow> bool) \<Rightarrow> 'a list \<Rightarrow> 'a list" where
  "insertionSort lt xs = rev (foldl (\<lambda>ys x. insert_last lt x ys) [] xs)"

text \<open>Go's \<open>int\<close> has 64 bits; \<open>int64\<close> is the value a result wraps to.\<close>

definition int64 :: "int \<Rightarrow> int" where
  "int64 x = (x + 2 ^ 63) mod 2 ^ 64 - 2 ^ 63"

text \<open>The \<open>less\<close> closure of \<open>resolveOverlaps\<close> and the one of \<open>recognize\<close>.\<close>

definition less_overlap :: "Entity \<Rightarrow> Entity \<Rightarrow> bool" where
  "less_overlap a b =
     (if Start a \<noteq> Start b then Start a < Start b
      else
        let li = int64 (End a - Start a); lj = int64 (End b - Start b) in
        if li \<noteq> lj then li > lj
        else if Labeled a \<noteq> Labeled b then Labeled a
        else False)"

definition less_start :: "Entity \<Rightarrow> Entity \<Rightarrow> bool" where
  "less_start a b = (Start a < Start b)"

text \<open>The sweep of \<open>resolveOverlaps\<close>: the loop over the sorted entities, with the
  variables \<open>result\<close> and \<open>maxEnd\<close>.\<close>

fun sweep :: "Entity list \<Rightarrow> Entity list \<Rightarrow> int \<Rightarrow> Entity list" where
  "sweep [] result maxEnd = result"
| "sweep (e # es) result maxEnd =
     (if Start e \<ge> maxEnd then sweep es (result @ [e]) (End e)
      else if End e > maxEnd then sweep es result maxEnd
      else sweep es result maxEnd)"

definition resolveOverlaps ::
  "((Entity \<Rightarrow> Entity \<Rightarrow> bool) \<Rightarrow> Entity list \<Rightarrow> Entity list) \<Rightarrow> Entity list \<Rightarrow> Entity list" where
  "resolveOverlaps srt entities =
     (if length entities \<le> 1 then entities
      else sweep (srt less_overlap entities) [] 0)"

text \<open>\<open>candidates\<close> is the variable \<open>all\<close> of \<open>recognize\<close> after the seven appends. The
  \<open>nil\<close> that \<open>recognize\<close> returns for no candidate is the empty list.\<close>

definition candidates :: "string \<Rightarrow> Entity list" where
  "candidates s =
     matchURL s @ matchEmail s @ matchIBAN s @ matchLicensePlate s @ matchPhone s
     @ matchFIN s @ matchVOEN s"

definition recognize ::
  "((Entity \<Rightarrow> Entity \<Rightarrow> bool) \<Rightarrow> Entity list \<Rightarrow> Entity list) \<Rightarrow> string \<Rightarrow> Entity list" where
  "recognize srt s =
     (let all = candidates s in
      if length all = 0 then []
      else srt less_start (resolveOverlaps srt all))"

section \<open>Properties stated by the specification\<close>

text \<open>Two ranges \<open>[start, end)\<close> intersect when some offset lies in both.\<close>

definition intersects :: "Entity \<Rightarrow> Entity \<Rightarrow> bool" where
  "intersects a b = (max (Start a) (Start b) < min (End a) (End b))"

text \<open>What the spec's data model says of an entity of the input \<open>s\<close>.\<close>

definition cand_ok :: "string \<Rightarrow> Entity \<Rightarrow> bool" where
  "cand_ok s e =
     (0 \<le> Start e \<and> Start e < End e \<and> End e \<le> int (length s)
      \<and> slice s (Start e) (End e) = Text e)"

text \<open>The resolver in the spec's words: rank by start ascending, then span length
  descending, then labeled first; then keep a candidate exactly when it starts at or
  after the end of the last one kept.\<close>

definition spec_before :: "Entity \<Rightarrow> Entity \<Rightarrow> bool" where
  "spec_before a b =
     (Start a < Start b
      \<or> (Start a = Start b \<and> End a - Start a > End b - Start b)
      \<or> (Start a = Start b \<and> End a - Start a = End b - Start b \<and> Labeled a \<and> \<not> Labeled b))"

fun spec_sweep :: "Entity list \<Rightarrow> int \<Rightarrow> Entity list" where
  "spec_sweep [] maxEnd = []"
| "spec_sweep (c # cs) maxEnd =
     (if Start c \<ge> maxEnd then c # spec_sweep cs (End c) else spec_sweep cs maxEnd)"

text \<open>Offsets that are non-negative values of Go's \<open>int\<close>.\<close>

definition offsets_ok :: "Entity \<Rightarrow> bool" where
  "offsets_ok e = (0 \<le> Start e \<and> Start e < 2 ^ 63 \<and> 0 \<le> End e \<and> End e < 2 ^ 63)"

text \<open>
  The spec's words for the claims on single patterns. \<open>az_diacritics\<close> lists the UTF-8
  encodings of the Azerbaijani letters that are not ASCII: schwa, g with breve, dotless i
  and dotted capital I, o and u with diaeresis, s and c with cedilla, small and capital.
\<close>

definition az_diacritics :: "string list" where
  "az_diacritics =
     [[CHR 0xC9, CHR 0x99], [CHR 0xC6, CHR 0x8F], [CHR 0xC4, CHR 0x9F], [CHR 0xC4, CHR 0x9E],
      [CHR 0xC4, CHR 0xB1], [CHR 0xC4, CHR 0xB0], [CHR 0xC3, CHR 0xB6], [CHR 0xC3, CHR 0x96],
      [CHR 0xC5, CHR 0x9F], [CHR 0xC5, CHR 0x9E], [CHR 0xC3, CHR 0xBC], [CHR 0xC3, CHR 0x9C],
      [CHR 0xC3, CHR 0xA7], [CHR 0xC3, CHR 0x87]]"

text \<open>
  The ASCII word characters are the digits, the letters \<open>A\<close> to \<open>Z\<close> and \<open>a\<close> to \<open>z\<close>, and
  the underscore. A span \<open>[a, b)\<close> of \<open>s\<close> stands free when no ASCII word character is the
  byte right before \<open>a\<close> or the byte at \<open>b\<close>; the two ends of the input are free.
\<close>

definition ascii_word :: "char \<Rightarrow> bool" where
  "ascii_word c = (rng CHR ''0'' CHR ''9'' (of_char c) \<or> rng CHR ''A'' CHR ''Z'' (of_char c)
     \<or> rng CHR ''a'' CHR ''z'' (of_char c) \<or> c = CHR ''_'')"

definition free_standing :: "string \<Rightarrow> nat \<Rightarrow> nat \<Rightarrow> bool" where
  "free_standing s a b =
     ((a = 0 \<or> \<not> ascii_word (s ! (a - 1))) \<and> (length s \<le> b \<or> \<not> ascii_word (s ! b)))"

text \<open>\<open>run_at c s a n\<close>: the \<open>n\<close> bytes of \<open>s\<close> from \<open>a\<close> on are in the input and in the class
  \<open>c\<close>.\<close>

definition run_at :: "(rune \<Rightarrow> bool) \<Rightarrow> string \<Rightarrow> nat \<Rightarrow> nat \<Rightarrow> bool" where
  "run_at c s a n = (a + n \<le> length s \<and> (\<forall>k<n. c (byte_at s (a + k))))"

text \<open>
  Where the five word-bounded patterns match, in the spec's words: a span of the pattern's
  shape that stands free. A bare FIN is 7 bytes of \<open>[A-HJ-NP-Z0-9]\<close>, a bare VOEN 10
  digits, an IBAN \<open>AZ\<close>, 2 digits, 4 capital letters and 20 capital letters or digits, a
  license plate 2 digits, a hyphen, 2 capital letters, a hyphen and 3 digits.
\<close>

definition fin_bare_at :: "string \<Rightarrow> nat \<Rightarrow> nat \<Rightarrow> bool" where
  "fin_bare_at s a b = (b = a + 7 \<and> run_at cls_fin s a 7 \<and> free_standing s a b)"

definition voen_bare_at :: "string \<Rightarrow> nat \<Rightarrow> nat \<Rightarrow> bool" where
  "voen_bare_at s a b = (b = a + 10 \<and> run_at cls_digit s a 10 \<and> free_standing s a b)"

definition iban_at :: "string \<Rightarrow> nat \<Rightarrow> nat \<Rightarrow> bool" where
  "iban_at s a b =
     (b = a + 28 \<and> b \<le> length s \<and> s ! a = CHR ''A'' \<and> s ! (a + 1) = CHR ''Z''
      \<and> run_at cls_digit s (a + 2) 2 \<and> run_at cls_upper s (a + 4) 4
      \<and> run_at cls_upper_digit s (a + 8) 20 \<and> free_standing s a b)"

definition plate_at :: "string \<Rightarrow> nat \<Rightarrow> nat \<Rightarrow> bool" where
  "plate_at s a b =
     (b = a + 9 \<and> b \<le> length s \<and> run_at cls_digit s a 2 \<and> s ! (a + 2) = CHR ''-''
      \<and> run_at cls_upper s (a + 3) 2 \<and> s ! (a + 5) = CHR ''-''
      \<and> run_at cls_digit s (a + 6) 3 \<and> free_standing s a b)"

text \<open>
  A local phone number is \<open>0\<close> and 2 digits, then 3 digits, 2 digits and 2 digits, each
  of the three groups after at most one whitespace byte; \<open>p1\<close>, \<open>p2\<close> and \<open>p3\<close> are where
  the three groups begin.
\<close>

definition opt_space :: "string \<Rightarrow> nat \<Rightarrow> nat \<Rightarrow> bool" where
  "opt_space s p q = (q = p \<or> (q = p + 1 \<and> p < length s \<and> cls_space (byte_at s p)))"

definition phone_local_at :: "string \<Rightarrow> nat \<Rightarrow> nat \<Rightarrow> bool" where
  "phone_local_at s a b =
     (\<exists>p1 \<in> {a + 3, a + 4}. \<exists>p2 \<in> {p1 + 3, p1 + 4}. \<exists>p3 \<in> {p2 + 2, p2 + 3}.
        a < length s \<and> s ! a = CHR ''0'' \<and> run_at cls_digit s (a + 1) 2
        \<and> opt_space s (a + 3) p1 \<and> run_at cls_digit s p1 3
        \<and> opt_space s (p1 + 3) p2 \<and> run_at cls_digit s p2 2
        \<and> opt_space s (p2 + 2) p3 \<and> run_at cls_digit s p3 2
        \<and> b = p3 + 2 \<and> free_standing s a b)"

text \<open>An offset is a rune boundary of every scan when it is the end of the input or holds an
  ASCII byte: no multi-byte rune contains such a byte.\<close>

definition ascii_at :: "string \<Rightarrow> nat \<Rightarrow> bool" where
  "ascii_at s i = (i \<le> length s \<and> (i < length s \<longrightarrow> byte_at s i < 0x80))"

text \<open>\<open>runes_span s i e\<close> is the list of the runes that the bytes from \<open>i\<close> up to \<open>e\<close> decode to,
  when the decoding ends at \<open>e\<close> exactly.\<close>

function runes_span :: "string \<Rightarrow> nat \<Rightarrow> nat \<Rightarrow> rune list option" where
  "runes_span s i e =
     (if i = e then Some []
      else if e < i then None
      else
        (case step s i of
           None \<Rightarrow> None
         | Some (r, w) \<Rightarrow> map_option ((#) r) (runes_span s (i + w) e)))"
  by pat_completeness auto
termination
proof (relation "measure (\<lambda>(s, i, e). e - i)", goal_cases)
  case 1
  show ?case by simp
next
  case (2 s i e x2 r w)
  then show ?case using step_bounds[of s i r w] by auto
qed

declare runes_span.simps [simp del]

text \<open>
  Where a labeled FIN stands: at a word boundary \<open>k\<close> the keyword in either case, one
  \<open>:\<close> or whitespace byte, at most one more whitespace byte, and from \<open>gb\<close> to \<open>e\<close> seven
  characters of \<open>[A-HJ-NP-Z0-9]\<close> as the case-insensitive pattern reads the class, with a
  word boundary at \<open>e\<close>.
\<close>

definition fin_keyword_at :: "string \<Rightarrow> nat \<Rightarrow> nat \<Rightarrow> bool" where
  "fin_keyword_at s k gb =
     (word_boundary s k \<and> k + 4 \<le> length s
      \<and> (s ! k = CHR ''F'' \<or> s ! k = CHR ''f'')
      \<and> (s ! (k + 1) = CHR ''I'' \<or> s ! (k + 1) = CHR ''i'')
      \<and> (s ! (k + 2) = CHR ''N'' \<or> s ! (k + 2) = CHR ''n'')
      \<and> cls_colon_space (byte_at s (k + 3))
      \<and> (gb = k + 4 \<or> (gb = k + 5 \<and> k + 5 \<le> length s \<and> cls_space (byte_at s (k + 4)))))"

definition fin_labeled_at :: "string \<Rightarrow> nat \<Rightarrow> nat \<Rightarrow> nat \<Rightarrow> bool" where
  "fin_labeled_at s k gb e =
     (fin_keyword_at s k gb
      \<and> (case runes_span s gb e of
            None \<Rightarrow> False
          | Some rs \<Rightarrow> length rs = 7 \<and> list_all cls_fin_fold rs)
      \<and> word_boundary s e)"

text \<open>The least number of bytes a match of a pattern takes, and whether a pattern is free of
  capture groups.\<close>

fun minlen :: "rx \<Rightarrow> nat" where
  "minlen Eps = 0"
| "minlen (Cls c) = 1"
| "minlen WordB = 0"
| "minlen (Cat a b) = minlen a + minlen b"
| "minlen (Quest a) = 0"
| "minlen (PlusC c) = 1"
| "minlen (Times n a) = n * minlen a"
| "minlen (Cap k a) = minlen a"

fun nocap :: "rx \<Rightarrow> bool" where
  "nocap Eps = True"
| "nocap (Cls c) = True"
| "nocap WordB = True"
| "nocap (Cat a b) = (nocap a \<and> nocap b)"
| "nocap (Quest a) = nocap a"
| "nocap (PlusC c) = True"
| "nocap (Times n a) = nocap a"
| "nocap (Cap k a) = False"

section \<open>UTF-8 decoding: ASCII bytes and multi-byte runes\<close>

lemma step_ascii: "i < length s \<Longrightarrow> byte_at s i < 0x80 \<Longrightarrow> step s i = Some (byte_at s i, 1)"
  by (simp add: step_def decode_rune_def)

lemma decode_seq_cases:
  "decode_seq s i s0 sz lo hi = (r, w) \<Longrightarrow>
     (r = RuneError \<and> w = 1)
   \<or> (sz \<le> 2 \<and> w = 2 \<and> lo \<le> byte_at s (i + 1) \<and> byte_at s (i + 1) \<le> hi
        \<and> r = (s0 mod 32) * 64 + byte_at s (i + 1) mod 64)
   \<or> (2 < sz \<and> sz \<le> 3 \<and> w = 3 \<and> lo \<le> byte_at s (i + 1) \<and> byte_at s (i + 1) \<le> hi
        \<and> 0x80 \<le> byte_at s (i + 2)
        \<and> r = (s0 mod 16) * 4096 + (byte_at s (i + 1) mod 64) * 64 + byte_at s (i + 2) mod 64)
   \<or> (3 < sz \<and> w = 4 \<and> lo \<le> byte_at s (i + 1) \<and> byte_at s (i + 1) \<le> hi
        \<and> 0x80 \<le> byte_at s (i + 2) \<and> 0x80 \<le> byte_at s (i + 3)
        \<and> r = (s0 mod 8) * 262144 + (byte_at s (i + 1) mod 64) * 4096
              + (byte_at s (i + 2) mod 64) * 64 + byte_at s (i + 3) mod 64)"
  unfolding decode_seq_def Let_def
  by (simp split: if_splits) 


lemma mod_shift: "(a::nat) * m \<le> x \<Longrightarrow> x mod m = (x - a * m) mod m"
proof -
  assume "a * m \<le> x"
  then have "x = (x - a * m) + a * m" by simp
  then have "x mod m = ((x - a * m) + a * m) mod m" by simp
  also have "\<dots> = (x - a * m) mod m" by (rule mod_mult_self1)
  finally show ?thesis .
qed

lemma m32: "(0xC2::nat) \<le> x \<Longrightarrow> x < 0xE0 \<Longrightarrow> 2 \<le> x mod 32"
  using mod_shift[of 6 32 x] by simp

lemma m64a: "(0xA0::nat) \<le> x \<Longrightarrow> x \<le> 0xBF \<Longrightarrow> 32 \<le> x mod 64"
  using mod_shift[of 2 64 x] by simp

lemma m64b: "(0x90::nat) \<le> x \<Longrightarrow> x \<le> 0xBF \<Longrightarrow> 16 \<le> x mod 64"
  using mod_shift[of 2 64 x] by simp

lemma m16: "(0xE0::nat) < x \<Longrightarrow> x < 0xF0 \<Longrightarrow> 1 \<le> x mod 16"
  using mod_shift[of 14 16 x] by simp

lemma m8: "(0xF0::nat) < x \<Longrightarrow> x \<le> 0xF4 \<Longrightarrow> 1 \<le> x mod 8"
  using mod_shift[of 30 8 x] by simp

text \<open>A rune of two or more bytes, and a RuneError, is 0x80 or more, and so is each of its bytes.\<close>

lemma decode_rune_cases:
  assumes "decode_rune s i = (r, w)"
  shows "(byte_at s i < 0x80 \<and> r = byte_at s i \<and> w = 1)
       \<or> (0x80 \<le> byte_at s i \<and> 0x80 \<le> r \<and> 1 \<le> w \<and> w \<le> 4
            \<and> (\<forall>k. k < w \<longrightarrow> 0x80 \<le> byte_at s (i + k)))"
proof (cases "byte_at s i < 0x80")
  case True
  with assms show ?thesis by (simp add: decode_rune_def)
next
  case hi: False
  show ?thesis
  proof (cases "byte_at s i < 0xC2 \<or> 0xF4 < byte_at s i")
    case True
    with hi assms have "r = RuneError" "w = 1" by (auto simp: decode_rune_def Let_def)
    with hi show ?thesis by (simp add: RuneError_def)
  next
    case False
    let ?s0 = "byte_at s i"
    let ?sz = "if ?s0 < 0xE0 then 2 else if ?s0 < 0xF0 then 3 else (4::nat)"
    let ?lo = "if ?s0 = 0xE0 then 0xA0 else if ?s0 = 0xF0 then 0x90 else (0x80::nat)"
    let ?hi = "if ?s0 = 0xED then 0x9F else if ?s0 = 0xF4 then 0x8F else (0xBF::nat)"
    from hi False assms have eq: "decode_seq s i ?s0 ?sz ?lo ?hi = (r, w)"
      by (simp add: decode_rune_def Let_def)
    have lo: "0x80 \<le> ?lo" by simp
    from decode_seq_cases[OF eq] show ?thesis
    proof (elim disjE conjE)
      assume "r = RuneError" "w = 1"
      with hi show ?thesis by (simp add: RuneError_def)
    next
      assume a: "?sz \<le> 2" "w = 2" "?lo \<le> byte_at s (i + 1)"
        "r = ?s0 mod 32 * 64 + byte_at s (i + 1) mod 64"
      from a(1) False have "0xC2 \<le> ?s0" "?s0 < 0xE0" by (auto split: if_splits)
      then have "2 \<le> ?s0 mod 32" by (rule m32)
      with a(4) have r: "0x80 \<le> r" by simp
      have b1: "0x80 \<le> byte_at s (i + 1)" using a(3) lo by linarith
      have "\<forall>k. k < w \<longrightarrow> 0x80 \<le> byte_at s (i + k)"
      proof (intro allI impI)
        fix k assume "k < w"
        with a(2) have "k = 0 \<or> k = 1" by auto
        with hi b1 show "0x80 \<le> byte_at s (i + k)" by auto
      qed
      with r hi a(2) show ?thesis by simp
    next
      assume a: "2 < ?sz" "?sz \<le> 3" "w = 3" "?lo \<le> byte_at s (i + 1)" "byte_at s (i + 1) \<le> ?hi"
        "0x80 \<le> byte_at s (i + 2)"
        "r = ?s0 mod 16 * 4096 + byte_at s (i + 1) mod 64 * 64 + byte_at s (i + 2) mod 64"
      from a(1,2) False have s0: "0xE0 \<le> ?s0" "?s0 < 0xF0" by (auto split: if_splits)
      have b1: "0x80 \<le> byte_at s (i + 1)" using a(4) lo by linarith
      have r: "0x80 \<le> r"
      proof (cases "?s0 = 0xE0")
        case True
        with a(4,5) have "0xA0 \<le> byte_at s (i + 1)" "byte_at s (i + 1) \<le> 0xBF" by simp_all
        then have "32 \<le> byte_at s (i + 1) mod 64" by (rule m64a)
        with a(7) show ?thesis by simp
      next
        case False
        with s0 have "0xE0 < ?s0" "?s0 < 0xF0" by simp_all
        then have "1 \<le> ?s0 mod 16" by (rule m16)
        with a(7) show ?thesis by simp
      qed
      have "\<forall>k. k < w \<longrightarrow> 0x80 \<le> byte_at s (i + k)"
      proof (intro allI impI)
        fix k assume "k < w"
        with a(3) have "k = 0 \<or> k = 1 \<or> k = 2" by auto
        with hi b1 a(6) show "0x80 \<le> byte_at s (i + k)" by auto
      qed
      with r hi a(3) show ?thesis by simp
    next
      assume a: "3 < ?sz" "w = 4" "?lo \<le> byte_at s (i + 1)" "byte_at s (i + 1) \<le> ?hi"
        "0x80 \<le> byte_at s (i + 2)" "0x80 \<le> byte_at s (i + 3)"
        "r = ?s0 mod 8 * 262144 + byte_at s (i + 1) mod 64 * 4096
             + byte_at s (i + 2) mod 64 * 64 + byte_at s (i + 3) mod 64"
      from a(1) False have s0: "0xF0 \<le> ?s0" "?s0 \<le> 0xF4" by (auto split: if_splits)
      have b1: "0x80 \<le> byte_at s (i + 1)" using a(3) lo by linarith
      have r: "0x80 \<le> r"
      proof (cases "?s0 = 0xF0")
        case True
        with a(3,4) have "0x90 \<le> byte_at s (i + 1)" "byte_at s (i + 1) \<le> 0xBF" by simp_all
        then have "16 \<le> byte_at s (i + 1) mod 64" by (rule m64b)
        with a(7) show ?thesis by simp
      next
        case False
        with s0 have "0xF0 < ?s0" "?s0 \<le> 0xF4" by simp_all
        then have "1 \<le> ?s0 mod 8" by (rule m8)
        with a(7) show ?thesis by simp
      qed
      have "\<forall>k. k < w \<longrightarrow> 0x80 \<le> byte_at s (i + k)"
      proof (intro allI impI)
        fix k assume "k < w"
        with a(2) have "k = 0 \<or> k = 1 \<or> k = 2 \<or> k = 3" by auto
        with hi b1 a(5,6) show "0x80 \<le> byte_at s (i + k)" by auto
      qed
      with r hi a(2) show ?thesis by simp
    qed
  qed
qed

lemma step_cases:
  assumes "step s i = Some (r, w)"
  shows "i < length s \<and> i + w \<le> length s \<and>
         ((byte_at s i < 0x80 \<and> r = byte_at s i \<and> w = 1)
          \<or> (0x80 \<le> r \<and> 1 \<le> w \<and> (\<forall>k. k < w \<longrightarrow> 0x80 \<le> byte_at s (i + k))))"
proof -
  from assms have i: "i < length s" and d: "decode_rune s i = (r, w)"
    by (auto simp: step_def split: if_splits)
  from decode_rune_cases[OF d] step_bounds[OF assms] i show ?thesis by auto
qed

section \<open>Sorting: insertion sort keeps the promise, and a strictly sorted list is the only answer\<close>

lemma insert_last_mset: "mset (insert_last lt x ys) = add_mset x (mset ys)"
  by (induction ys) auto

lemma strict_weak_asym: "strict_weak lt \<Longrightarrow> lt a b \<Longrightarrow> \<not> lt b a"
  unfolding strict_weak_def by blast

lemma strict_weak_negtrans: "strict_weak lt \<Longrightarrow> \<not> lt a b \<Longrightarrow> \<not> lt b c \<Longrightarrow> \<not> lt a c"
  unfolding strict_weak_def by blast

lemma insert_last_sorted:
  assumes sw: "strict_weak lt"
  shows "sorted_wrt (\<lambda>a b. \<not> lt a b) ys \<Longrightarrow> sorted_wrt (\<lambda>a b. \<not> lt a b) (insert_last lt x ys)"
proof (induction ys)
  case Nil
  then show ?case by simp
next
  case (Cons y ys)
  show ?case
  proof (cases "lt x y")
    case True
    have "set (insert_last lt x ys) = insert x (set ys)"
      using insert_last_mset[of lt x ys] by (metis set_mset_add_mset_insert set_mset_mset)
    moreover have "\<not> lt y x" using strict_weak_asym[OF sw True] .
    ultimately show ?thesis using True Cons by auto
  next
    case False
    have "\<forall>z \<in> set ys. \<not> lt x z"
      using False Cons.prems strict_weak_negtrans[OF sw] by auto
    with False Cons.prems show ?thesis by simp
  qed
qed

lemma foldl_insert_last_mset:
  "mset (foldl (\<lambda>ys x. insert_last lt x ys) acc xs) = mset acc + mset xs"
  by (induction xs arbitrary: acc) (simp_all add: insert_last_mset)

lemma foldl_insert_last_sorted:
  "strict_weak lt \<Longrightarrow> sorted_wrt (\<lambda>a b. \<not> lt a b) acc \<Longrightarrow>
   sorted_wrt (\<lambda>a b. \<not> lt a b) (foldl (\<lambda>ys x. insert_last lt x ys) acc xs)"
  by (induction xs arbitrary: acc) (simp_all add: insert_last_sorted)

lemma insertionSort_sorts: "sorts insertionSort"
  unfolding sorts_def insertionSort_def
  by (simp add: foldl_insert_last_mset sorted_wrt_rev foldl_insert_last_sorted)

lemma sorted_unique:
  "mset r = mset ys \<Longrightarrow> sorted_wrt lt ys \<Longrightarrow> sorted_wrt (\<lambda>a b. \<not> lt b a) r \<Longrightarrow> r = ys"
proof (induction ys arbitrary: r)
  case Nil
  then show ?case by simp
next
  case (Cons x xs)
  from Cons.prems(1) obtain y r' where r: "r = y # r'" by (cases r) auto
  have "y = x"
  proof (rule ccontr)
    assume ne: "y \<noteq> x"
    have "x \<in> set r" using Cons.prems(1) by (metis list.set_intros(1) mset_eq_setD)
    with ne r have "x \<in> set r'" by auto
    with Cons.prems(3) r have 1: "\<not> lt x y" by auto
    have "y \<in> set (x # xs)" using Cons.prems(1) r by (metis list.set_intros(1) mset_eq_setD)
    with ne have "y \<in> set xs" by auto
    with Cons.prems(2) have "lt x y" by auto
    with 1 show False by simp
  qed
  with Cons.prems r have "mset r' = mset xs" "sorted_wrt lt xs" "sorted_wrt (\<lambda>a b. \<not> lt b a) r'"
    by auto
  from Cons.IH[OF this] r \<open>y = x\<close> show ?case by simp
qed

lemma sorts_unique:
  assumes "sorts srt" "strict_weak lt" "mset ys = mset xs" "sorted_wrt lt ys"
  shows "srt lt xs = ys"
proof -
  from assms(1,2) have "mset (srt lt xs) = mset xs" "sorted_wrt (\<lambda>a b. \<not> lt b a) (srt lt xs)"
    unfolding sorts_def by blast+
  with assms(3,4) show ?thesis using sorted_unique[of "srt lt xs" ys lt] by simp
qed

lemma strict_weak_less_start: "strict_weak less_start"
  unfolding strict_weak_def less_start_def by auto

lemma strict_weak_less_overlap: "strict_weak less_overlap"
  unfolding strict_weak_def less_overlap_def Let_def
  by (intro conjI allI impI) (auto split: if_splits)

lemma sweep_spec_sweep: "sweep es result maxEnd = result @ spec_sweep es maxEnd"
  by (induction es arbitrary: result maxEnd) auto

lemma spec_sweep_subset: "set (spec_sweep es m) \<subseteq> set es"
  by (induction es arbitrary: m) auto

lemma spec_sweep_chain:
  "\<forall>e \<in> set es. Start e \<le> End e \<Longrightarrow>
   sorted_wrt (\<lambda>a b. End a \<le> Start b) (spec_sweep es m) \<and> (\<forall>x \<in> set (spec_sweep es m). m \<le> Start x)"
proof (induction es arbitrary: m)
  case Nil
  then show ?case by simp
next
  case (Cons c cs)
  from Cons.prems have le: "Start c \<le> End c" and rest: "\<forall>e \<in> set cs. Start e \<le> End e" by auto
  show ?case
  proof (cases "Start c \<ge> m")
    case True
    from Cons.IH[OF rest, of "End c"] le True show ?thesis by fastforce
  next
    case False
    from Cons.IH[OF rest, of m] False show ?thesis by simp
  qed
qed

section \<open>What a match is: lengths, starts and capture groups\<close>

lemma ms_Cat_elim:
  assumes "(e, cs') \<in> set (ms (Cat a b) s t)"
  obtains m cm where "(m, cm) \<in> set (ms a s t)" "(e, cs') \<in> set (ms b s (m, cm))"
proof -
  from assms have "(e, cs') \<in> set (concat (map (ms b s) (ms a s t)))" by simp
  from in_concat_map[OF this] obtain u where u: "u \<in> set (ms a s t)"
    and e: "(e, cs') \<in> set (ms b s u)" by blast
  obtain m cm where "u = (m, cm)" by (cases u)
  with u e that show ?thesis by blast
qed

lemma ms_Times_Suc_elim:
  assumes "(e, cs') \<in> set (ms (Times (Suc n) a) s t)"
  obtains m cm where "(m, cm) \<in> set (ms a s t)" "(e, cs') \<in> set (ms (Times n a) s (m, cm))"
proof -
  from assms have "(e, cs') \<in> set (concat (map (ms (Times n a) s) (ms a s t)))" by simp
  from in_concat_map[OF this] obtain u where u: "u \<in> set (ms a s t)"
    and e: "(e, cs') \<in> set (ms (Times n a) s u)" by blast
  obtain m cm where "u = (m, cm)" by (cases u)
  with u e that show ?thesis by blast
qed

lemma ms_Cap_elim:
  assumes "(e, cs') \<in> set (ms (Cap k a) s (i, cs))"
  obtains c0 where "cs' = (k, i, e) # c0" "(e, c0) \<in> set (ms a s (i, cs))"
  using assms by (auto simp: image_iff)

lemma ms_minlen: "(e, cs') \<in> set (ms r s (i, cs)) \<Longrightarrow> i + minlen r \<le> e"
proof (induction r arbitrary: i cs e cs')
  case Eps
  then show ?case by simp
next
  case (Cls c)
  show ?case
  proof (cases "step s i")
    case None
    with Cls show ?thesis by simp
  next
    case (Some rw)
    obtain r w where rw: "rw = (r, w)" by (cases rw)
    from Cls Some rw have "e = i + w" by (simp split: if_splits)
    with step_bounds[of s i r w] Some rw show ?thesis by simp
  qed
next
  case WordB
  then show ?case by (simp split: if_splits)
next
  case (Cat a b)
  from Cat.prems obtain m cm where m: "(m, cm) \<in> set (ms a s (i, cs))"
    and e: "(e, cs') \<in> set (ms b s (m, cm))" by (rule ms_Cat_elim)
  from Cat.IH(1)[OF m] Cat.IH(2)[OF e] show ?case by simp
next
  case (Quest a)
  from ms_bounds[OF Quest.prems] show ?case by simp
next
  case (PlusC c)
  from PlusC have "e \<in> set (run_ends c s i)" by (simp add: image_iff)
  from run_ends_bounds[OF this] show ?case by simp
next
  case (Times n a)
  from Times.prems show ?case
  proof (induction n arbitrary: i cs)
    case 0
    then show ?case by simp
  next
    case (Suc n)
    from Suc.prems obtain m cm where m: "(m, cm) \<in> set (ms a s (i, cs))"
      and e: "(e, cs') \<in> set (ms (Times n a) s (m, cm))" by (rule ms_Times_Suc_elim)
    from Times.IH[OF m] Suc.IH[OF e] show ?case by simp
  qed
next
  case (Cap k a)
  from Cap.prems obtain c0 where "(e, c0) \<in> set (ms a s (i, cs))" by (rule ms_Cap_elim)
  from Cap.IH[OF this] show ?case by simp
qed

text \<open>What the search returns is the first way the pattern matches at the start it found.\<close>

lemma find_from_sound:
  "find_from r s pos = Some (b, e, cs) \<Longrightarrow> pos \<le> length s \<Longrightarrow>
   pos \<le> b \<and> b \<le> length s \<and> (\<exists>ts. ms r s (b, []) = (e, cs) # ts)"
proof (induction r s pos rule: find_from.induct)
  case (1 r s pos)
  show ?case
  proof (cases "ms r s (pos, [])")
    case Nil
    show ?thesis
    proof (cases "step s pos")
      case None
      with Nil "1.prems" show ?thesis by (simp add: find_from_Nil)
    next
      case (Some rw)
      obtain x w where rw: "rw = (x, w)" by (cases rw)
      from Nil Some rw "1.prems" have f: "find_from r s (pos + w) = Some (b, e, cs)"
        by (simp add: find_from_Nil)
      from step_bounds[of s pos x w] Some rw have "0 < w \<and> pos + w \<le> length s" by simp
      with "1.IH"[OF Nil Some rw[symmetric] f] show ?thesis by simp
    qed
  next
    case (Cons t ts)
    obtain e0 c0 where t: "t = (e0, c0)" by (cases t)
    from Cons t "1.prems" have eq: "b = pos" "e = e0" "cs = c0"
      using find_from_Cons[of r s pos e0 c0 ts] by simp_all
    with Cons t "1.prems" show ?thesis by simp
  qed
qed

lemma all_matches_sound:
  "(b, e, cs) \<in> set (all_matches r s pos prev) \<Longrightarrow>
   pos \<le> b \<and> b \<le> length s \<and> (\<exists>ts. ms r s (b, []) = (e, cs) # ts)"
proof (induction r s pos prev rule: all_matches.induct)
  case (1 r s pos prev)
  show ?case
  proof (cases "length s < pos")
    case True
    with "1.prems" show ?thesis by (simp add: all_matches_unfold)
  next
    case le: False
    show ?thesis
    proof (cases "find_from r s pos")
      case None
      with le "1.prems" show ?thesis by (simp add: all_matches_unfold)
    next
      case ff: (Some m)
      obtain b0 e0 c0 where m: "m = (b0, e0, c0)" by (cases m)
      from le have pl: "pos \<le> length s" by simp
      from find_from_sound[of r s pos b0 e0 c0] ff m pl
      have snd0: "pos \<le> b0 \<and> b0 \<le> length s \<and> (\<exists>ts. ms r s (b0, []) = (e0, c0) # ts)" by simp
      show ?thesis
      proof (cases "e0 = pos")
        case True
        show ?thesis
        proof (cases "step s pos")
          case None
          with True le ff m "1.prems" have "(b, e, cs) = (b0, e0, c0)"
            by (simp add: all_matches_unfold[of r s pos prev] Let_def split: if_splits)
          with snd0 show ?thesis by simp
        next
          case st: (Some rw)
          obtain x w where rw: "rw = (x, w)" by (cases rw)
          from True le ff m st rw "1.prems"
          have "(b, e, cs) = (b0, e0, c0) \<or> (b, e, cs) \<in> set (all_matches r s (pos + w) (Some e0))"
            by (auto simp: all_matches_unfold[of r s pos prev] Let_def split: if_splits)
          then show ?thesis
          proof
            assume "(b, e, cs) = (b0, e0, c0)"
            with snd0 show ?thesis by simp
          next
            assume a: "(b, e, cs) \<in> set (all_matches r s (pos + w) (Some e0))"
            have "pos + w \<le> b \<and> b \<le> length s \<and> (\<exists>ts. ms r s (b, []) = (e, cs) # ts)"
              using "1.IH"(1)[OF le ff _ _ True st _ a] m rw by blast
            then show ?thesis by simp
          qed
        qed
      next
        case False
        from False le ff m "1.prems"
        have "(b, e, cs) = (b0, e0, c0) \<or> (b, e, cs) \<in> set (all_matches r s e0 (Some e0))"
          by (simp add: all_matches_unfold[of r s pos prev])
        then show ?thesis
        proof
          assume "(b, e, cs) = (b0, e0, c0)"
          with snd0 show ?thesis by simp
        next
          assume a: "(b, e, cs) \<in> set (all_matches r s e0 (Some e0))"
          from find_from_bounds[of r s pos b0 e0 c0] ff m have "pos \<le> e0" by simp
          have "e0 \<le> b \<and> b \<le> length s \<and> (\<exists>ts. ms r s (b, []) = (e, cs) # ts)"
            using "1.IH"(2)[OF le ff _ _ False a] m by blast
          with \<open>pos \<le> e0\<close> show ?thesis by simp
        qed
      qed
    qed
  qed
qed

lemma ms_Cls_elim:
  assumes "(e, cs') \<in> set (ms (Cls c) s (i, cs))"
  obtains r w where "step s i = Some (r, w)" "c r" "e = i + w" "cs' = cs"
proof (cases "step s i")
  case None
  with assms show ?thesis by simp
next
  case (Some rw)
  obtain r w where rw: "rw = (r, w)" by (cases rw)
  from assms Some rw have "c r" "e = i + w" "cs' = cs" by (simp_all split: if_splits)
  with Some rw that show ?thesis by simp
qed

lemma concat_map_assoc:
  "concat (map f (concat (map g zs))) = concat (map (\<lambda>u. concat (map f (g u))) zs)"
  by (induction zs) simp_all

lemma ms_nocap: "nocap r \<Longrightarrow> (e, cs') \<in> set (ms r s (i, cs)) \<Longrightarrow> cs' = cs"
proof (induction r arbitrary: i cs e cs')
  case Eps
  then show ?case by simp
next
  case (Cls c)
  from Cls.prems(2) show ?case by (rule ms_Cls_elim)
next
  case WordB
  then show ?case by (simp split: if_splits)
next
  case (Cat a b)
  from Cat.prems(2) obtain m cm where m: "(m, cm) \<in> set (ms a s (i, cs))"
    and e: "(e, cs') \<in> set (ms b s (m, cm))" by (rule ms_Cat_elim)
  from Cat.prems(1) have "nocap a" "nocap b" by simp_all
  with Cat.IH(1)[OF _ m] Cat.IH(2)[OF _ e] show ?case by simp
next
  case (Quest a)
  from Quest.prems have "(e, cs') \<in> set (ms a s (i, cs)) \<or> (e, cs') = (i, cs)" by auto
  with Quest.IH Quest.prems(1) show ?case by auto
next
  case (PlusC c)
  then show ?case by (auto simp: image_iff)
next
  case (Times n a)
  from Times.prems have na: "nocap a" by simp
  from Times.prems(2) show ?case
  proof (induction n arbitrary: i cs)
    case 0
    then show ?case by simp
  next
    case (Suc n)
    from Suc.prems obtain m cm where m: "(m, cm) \<in> set (ms a s (i, cs))"
      and e: "(e, cs') \<in> set (ms (Times n a) s (m, cm))" by (rule ms_Times_Suc_elim)
    from Times.IH[OF na m] Suc.IH[of m cm] e show ?case by simp
  qed
next
  case (Cap k a)
  then show ?case by simp
qed

lemma ms_cats_append:
  "ms (cats (xs @ ys)) s t = concat (map (ms (cats ys) s) (ms (cats xs) s t))"
proof (induction xs arbitrary: t)
  case Nil
  then show ?case by simp
next
  case (Cons x xs)
  have eq: "ms (cats (xs @ ys)) s = (\<lambda>u. concat (map (ms (cats ys) s) (ms (cats xs) s u)))"
    by (rule ext) (rule Cons.IH)
  show ?case by (simp add: eq concat_map_assoc)
qed

lemma FindAllStringIndex_sound:
  assumes "m \<in> set (FindAllStringIndex r s)"
  obtains b e cs ts where "m = [int b, int e]" "b \<le> length s" "ms r s (b, []) = (e, cs) # ts"
proof -
  from assms obtain x where x: "x \<in> set (all_matches r s 0 None)"
    and m: "m = (\<lambda>(b, e, cs). [int b, int e]) x"
    by (auto simp: FindAllStringIndex_def)
  obtain b e cs where xe: "x = (b, e, cs)" by (cases x)
  from all_matches_sound[of b e cs r s 0 None] x xe
  obtain ts where "b \<le> length s" "ms r s (b, []) = (e, cs) # ts" by auto
  with m xe that show ?thesis by simp
qed

lemma match_span:
  assumes "ms r s (b, []) = (e, cs) # ts" "b \<le> length s"
  shows "b + minlen r \<le> e \<and> e \<le> length s"
proof -
  from assms(1) have "(e, cs) \<in> set (ms r s (b, []))" by simp
  from ms_minlen[OF this] ms_bounds[OF this] assms(2) show ?thesis by simp
qed

lemma entity_of_ok:
  assumes "0 < minlen r" "m \<in> set (FindAllStringIndex r s)"
  shows "cand_ok s (entity_of s ty m)"
proof -
  from assms(2) obtain b e cs ts where m: "m = [int b, int e]" and b: "b \<le> length s"
    and ms: "ms r s (b, []) = (e, cs) # ts" by (rule FindAllStringIndex_sound)
  from match_span[OF ms b] assms(1) have "b < e" "e \<le> length s" by simp_all
  with m show ?thesis by (simp add: cand_ok_def entity_of_def)
qed

lemma FindAllStringSubmatchIndex_sound:
  assumes "sub \<in> set (FindAllStringSubmatchIndex r s)"
  obtains b e cs ts where
    "sub = [int b, int e] @ concat (map (group_index cs) [1 ..< Suc (ncap r)])"
    "b \<le> length s" "ms r s (b, []) = (e, cs) # ts"
proof -
  from assms obtain x where x: "x \<in> set (all_matches r s 0 None)"
    and m: "sub = (\<lambda>(b, e, cs). [int b, int e] @ concat (map (group_index cs) [1 ..< Suc (ncap r)])) x"
    by (auto simp: FindAllStringSubmatchIndex_def)
  obtain b e cs where xe: "x = (b, e, cs)" by (cases x)
  from all_matches_sound[of b e cs r s 0 None] x xe
  obtain ts where "b \<le> length s" "ms r s (b, []) = (e, cs) # ts" by auto
  with m xe that show ?thesis by simp
qed

text \<open>A labeled pattern: a prefix without groups, then group 1, then a word boundary.\<close>

lemma labeled_shape:
  assumes r: "r = cats (pre @ [Cap 1 g, WordB])" and pre: "nocap (cats pre)" and g: "nocap g"
    and n: "ncap r = 1" and sub: "sub \<in> set (FindAllStringSubmatchIndex r s)"
  obtains b gb e where "sub = [int b, int e, int gb, int e]" "b \<le> length s"
    "(gb, []) \<in> set (ms (cats pre) s (b, []))" "(e, []) \<in> set (ms g s (gb, []))"
    "word_boundary s e"
proof -
  from sub obtain b e cs ts where
    s1: "sub = [int b, int e] @ concat (map (group_index cs) [1 ..< Suc (ncap r)])"
    and b: "b \<le> length s" and m: "ms r s (b, []) = (e, cs) # ts"
    by (rule FindAllStringSubmatchIndex_sound)
  from m have "(e, cs) \<in> set (ms (cats (pre @ [Cap 1 g, WordB])) s (b, []))" using r by simp
  then have "(e, cs) \<in> set (concat (map (ms (cats [Cap 1 g, WordB]) s) (ms (cats pre) s (b, []))))"
    by (simp only: ms_cats_append)
  from in_concat_map[OF this] obtain u where u: "u \<in> set (ms (cats pre) s (b, []))"
    and e: "(e, cs) \<in> set (ms (cats [Cap 1 g, WordB]) s u)" by blast
  obtain gb cu where ue: "u = (gb, cu)" by (cases u)
  from ms_nocap[OF pre, of gb cu s b "[]"] u ue have cu: "cu = []" by simp
  from e ue cu have "(e, cs) \<in> set (ms (Cat (Cap 1 g) (Cat WordB Eps)) s (gb, []))" by simp
  then obtain m1 c1 where c: "(m1, c1) \<in> set (ms (Cap 1 g) s (gb, []))"
    and w: "(e, cs) \<in> set (ms (Cat WordB Eps) s (m1, c1))" by (rule ms_Cat_elim)
  from c obtain c0 where c1: "c1 = (1, gb, m1) # c0" and gm: "(m1, c0) \<in> set (ms g s (gb, []))"
    by (rule ms_Cap_elim)
  from ms_nocap[OF g gm] have c0: "c0 = []" .
  from w have wb: "word_boundary s m1" "e = m1" "cs = c1" by (auto split: if_splits)
  from s1 n wb c1 c0 have "sub = [int b, int e, int gb, int e]"
    by (simp add: group_index_def)
  with b u ue cu gm c0 wb that show ?thesis by simp
qed

lemma labeled_entity_ok:
  assumes r: "r = cats (pre @ [Cap 1 g, WordB])" and pre: "nocap (cats pre)" and g: "nocap g"
    and n: "ncap r = 1" and sub: "sub \<in> set (FindAllStringSubmatchIndex r s)"
    and ml: "0 < minlen g"
  shows "cand_ok s (labeled_entity_of s ty sub)"
proof -
  from r pre g n sub obtain b gb e where s1: "sub = [int b, int e, int gb, int e]"
    and b: "b \<le> length s" and p: "(gb, []) \<in> set (ms (cats pre) s (b, []))"
    and gm: "(e, []) \<in> set (ms g s (gb, []))" by (rule labeled_shape)
  from ms_bounds[OF p] b have "gb \<le> length s" by simp
  with ms_bounds[OF gm] ms_minlen[OF gm] ml have "gb < e" "e \<le> length s" by simp_all
  with s1 show ?thesis by (simp add: cand_ok_def labeled_entity_of_def)
qed

section \<open>Literals and the URL pattern\<close>

lemma lit_elim:
  assumes "(e, cs') \<in> set (ms (lit c) s (i, cs))" "of_char c < (0x80::nat)"
  shows "e = i + 1 \<and> i < length s \<and> s ! i = c \<and> cs' = cs"
proof -
  from assms(1) obtain r w where st: "step s i = Some (r, w)" and r: "r = of_char c"
    and e: "e = i + w" "cs' = cs" unfolding lit_def by (rule ms_Cls_elim)
  from step_cases[OF st] r assms(2)
  have "i < length s" "byte_at s i = of_char c" "w = 1" by auto
  with e show ?thesis by (simp add: byte_at_def)
qed

lemma lits_elim:
  "(e, cs') \<in> set (ms (lits str) s (i, cs)) \<Longrightarrow> \<forall>c \<in> set str. of_char c < (0x80::nat) \<Longrightarrow>
   e = i + length str \<and> take (length str) (drop i s) = str \<and> cs' = cs"
proof (induction str arbitrary: i)
  case Nil
  then show ?case by simp
next
  case (Cons c str)
  from Cons.prems(1) have "(e, cs') \<in> set (ms (Cat (lit c) (lits str)) s (i, cs))" by simp
  then obtain m cm where m: "(m, cm) \<in> set (ms (lit c) s (i, cs))"
    and e: "(e, cs') \<in> set (ms (lits str) s (m, cm))" by (rule ms_Cat_elim)
  from Cons.prems(2) have c: "of_char c < (0x80::nat)" and rest: "\<forall>c \<in> set str. of_char c < (0x80::nat)"
    by simp_all
  from lit_elim[OF m c] have m1: "m = i + 1" "i < length s" "s ! i = c" "cm = cs" by simp_all
  from e m1 have "(e, cs') \<in> set (ms (lits str) s (i + 1, cs))" by simp
  from Cons.IH[OF this rest]
  have ih: "e = i + 1 + length str" "take (length str) (drop (i + 1) s) = str" "cs' = cs" by simp_all
  from m1(2) have "drop i s = s ! i # drop (Suc i) s" by (simp add: Cons_nth_drop_Suc)
  with m1(3) ih show ?case by simp
qed

lemma run_ends_bytes:
  "e \<in> set (run_ends c s i) \<Longrightarrow> \<forall>x. 0x80 \<le> x \<longrightarrow> c x \<Longrightarrow> i \<le> j \<Longrightarrow> j < e \<Longrightarrow>
   c (byte_at s j)"
proof (induction c s i rule: run_ends.induct)
  case (1 c s i)
  show ?case
  proof (cases "step s i")
    case None
    with "1.prems"(1) show ?thesis by (simp add: run_ends_None)
  next
    case (Some rw)
    obtain r w where rw: "rw = (r, w)" by (cases rw)
    have st: "step s i = Some (r, w)" using Some rw by simp
    show ?thesis
    proof (cases "c r")
      case False
      with "1.prems"(1) show ?thesis by (simp add: run_ends_Some[OF st])
    next
      case True
      with "1.prems"(1) have e: "e = i + w \<or> e \<in> set (run_ends c s (i + w))"
        by (simp add: run_ends_Some[OF st])
      show ?thesis
      proof (cases "j < i + w")
        case inside: True
        from step_cases[OF st] show ?thesis
        proof (elim conjE disjE)
          assume a: "byte_at s i < 0x80" "r = byte_at s i" "w = 1"
          with inside "1.prems"(3) have "j = i" by simp
          with a True show ?thesis by simp
        next
          assume all: "\<forall>k<w. 0x80 \<le> byte_at s (i + k)"
          from inside "1.prems"(3) have "j - i < w" "i + (j - i) = j" by simp_all
          with all have "0x80 \<le> byte_at s j" by metis
          with "1.prems"(2) show ?thesis by simp
        qed
      next
        case False
        with e "1.prems"(4) have e': "e \<in> set (run_ends c s (i + w))" by auto
        from False have "i + w \<le> j" by simp
        from "1.IH"[OF Some rw[symmetric] True e' "1.prems"(2) this "1.prems"(4)]
        show ?thesis .
      qed
    qed
  qed
qed

lemma Quest_elim:
  assumes "(e, cs') \<in> set (ms (Quest a) s t)"
  shows "(e, cs') \<in> set (ms a s t) \<or> (e, cs') = t"
  using assms by auto

lemma take_drop_append:
  assumes "take (length p) (drop i s) = p" "take (length q) (drop (i + length p) s) = q"
  shows "take (length (p @ q)) (drop i s) = p @ q"
proof -
  have "take (length p + length q) (drop i s)
        = take (length p) (drop i s) @ take (length q) (drop (length p) (drop i s))"
    by (rule take_add)
  also have "drop (length p) (drop i s) = drop (i + length p) s" by (simp add: add.commute)
  finally show ?thesis using assms by simp
qed

lemma lits_take:
  assumes "(e, cs') \<in> set (ms (lits str) s (i, cs))" "\<forall>c \<in> set str. of_char c < (0x80::nat)"
  shows "e = i + length str" "take (length str) (drop i s) = str"
  using lits_elim[OF assms] by simp_all

lemma reURL_shape:
  assumes "ms reURL s (b, []) = (e, cs) # ts"
  obtains p where "p = ''http://'' \<or> p = ''https://''" "take (length p) (drop b s) = p"
    "e \<in> set (run_ends cls_url s (b + length p))"
proof -
  from assms have "(e, cs) \<in> set (ms reURL s (b, []))" by simp
  then have "(e, cs) \<in> set (ms (Cat (lits ''http'') (Cat (Quest (lit CHR ''s''))
      (Cat (lits ''://'') (Cat (PlusC cls_url) Eps)))) s (b, []))"
    by (simp only: reURL_def cats.simps)
  then obtain i1 c1 where 1: "(i1, c1) \<in> set (ms (lits ''http'') s (b, []))"
    and r1: "(e, cs) \<in> set (ms (Cat (Quest (lit CHR ''s'')) (Cat (lits ''://'')
      (Cat (PlusC cls_url) Eps))) s (i1, c1))" by (rule ms_Cat_elim)
  from r1 obtain i2 c2 where 2: "(i2, c2) \<in> set (ms (Quest (lit CHR ''s'')) s (i1, c1))"
    and r2: "(e, cs) \<in> set (ms (Cat (lits ''://'') (Cat (PlusC cls_url) Eps)) s (i2, c2))"
    by (rule ms_Cat_elim)
  from r2 obtain i3 c3 where 3: "(i3, c3) \<in> set (ms (lits ''://'') s (i2, c2))"
    and r3: "(e, cs) \<in> set (ms (Cat (PlusC cls_url) Eps) s (i3, c3))" by (rule ms_Cat_elim)
  from r3 have 4: "e \<in> set (run_ends cls_url s i3)" by (auto simp: image_iff)
  have h: "i1 = b + length ''http''" "take (length ''http'') (drop b s) = ''http''"
    by (rule lits_take[OF 1], simp)+
  have t: "i3 = i2 + length ''://''" "take (length ''://'') (drop i2 s) = ''://''"
    by (rule lits_take[OF 3], simp)+
  from Quest_elim[OF 2] show ?thesis
  proof
    assume "(i2, c2) \<in> set (ms (lit CHR ''s'') s (i1, c1))"
    from lit_elim[OF this] have q: "i2 = i1 + 1" "i1 < length s" "s ! i1 = CHR ''s''" by simp_all
    from q(2) have "drop i1 s = s ! i1 # drop (Suc i1) s" by (simp add: Cons_nth_drop_Suc)
    with q(3) have qs: "take (length ''s'') (drop i1 s) = ''s''" by simp
    from q(1) h(1) have i2: "i2 = b + length (''http'' @ ''s'')" by simp
    from qs h(1) have "take (length ''s'') (drop (b + length ''http'') s) = ''s''" by simp
    from take_drop_append[OF h(2) this]
    have a: "take (length (''http'' @ ''s'')) (drop b s) = ''http'' @ ''s''" .
    from t(2) i2 have "take (length ''://'') (drop (b + length (''http'' @ ''s'')) s) = ''://''"
      by simp
    from take_drop_append[OF a this]
    have "take (length ''https://'') (drop b s) = ''https://''" by simp
    moreover from 4 t(1) i2 have "e \<in> set (run_ends cls_url s (b + length ''https://''))"
      by simp
    ultimately show ?thesis using that[of "''https://''"] by blast
  next
    assume "(i2, c2) = (i1, c1)"
    with h(1) have i2: "i2 = b + length ''http''" by simp
    from t(2) i2 have "take (length ''://'') (drop (b + length ''http'') s) = ''://''" by simp
    from take_drop_append[OF h(2) this]
    have "take (length ''http://'') (drop b s) = ''http://''" by simp
    moreover from 4 t(1) i2 have "e \<in> set (run_ends cls_url s (b + length ''http://''))"
      by simp
    ultimately show ?thesis using that[of "''http://''"] by blast
  qed
qed

lemma slice_nat: "slice s (int a) (int b) = take (b - a) (drop a s)"
proof -
  have "nat (int b - int a) = b - a" by arith
  then show ?thesis by (simp add: slice_def)
qed

lemma TrimRight_decomp:
  "\<exists>rest. xs = TrimRight xs cutset @ rest \<and> set rest \<subseteq> set cutset"
proof -
  let ?P = "\<lambda>c. c \<in> set cutset"
  have "rev (takeWhile ?P (rev xs) @ dropWhile ?P (rev xs)) = xs"
    by (simp only: takeWhile_dropWhile_id rev_rev_ident)
  then have "xs = rev (dropWhile ?P (rev xs)) @ rev (takeWhile ?P (rev xs))"
    by (simp only: rev_append)
  then have "xs = TrimRight xs cutset @ rev (takeWhile ?P (rev xs))"
    by (simp only: TrimRight_def)
  moreover have "set (rev (takeWhile ?P (rev xs))) \<subseteq> set cutset"
    by (auto dest: set_takeWhileD)
  ultimately show ?thesis by blast
qed

lemma TrimRight_last:
  assumes "TrimRight xs cutset \<noteq> []"
  shows "last (TrimRight xs cutset) \<notin> set cutset"
proof -
  let ?P = "\<lambda>c. c \<in> set cutset"
  from assms have ne: "dropWhile ?P (rev xs) \<noteq> []" by (simp add: TrimRight_def)
  from hd_dropWhile[OF ne] have "\<not> ?P (hd (dropWhile ?P (rev xs)))" .
  with ne show ?thesis by (simp add: TrimRight_def last_rev)
qed

lemma TrimRight_keep:
  assumes "p \<noteq> []" "last p \<notin> set cutset"
  shows "TrimRight (p @ q) cutset = p @ TrimRight q cutset"
proof -
  let ?P = "\<lambda>c. c \<in> set cutset"
  from assms have "\<not> ?P (hd (rev p))" "rev p \<noteq> []" by (simp_all add: hd_rev)
  then have dp: "dropWhile ?P (rev p) = rev p" by (cases "rev p") auto
  have "dropWhile ?P (rev q @ rev p) = dropWhile ?P (rev q) @ rev p"
  proof (cases "\<forall>x \<in> set (rev q). ?P x")
    case True
    then have "dropWhile ?P (rev q) = []" by simp
    moreover from True have "dropWhile ?P (rev q @ rev p) = dropWhile ?P (rev p)"
      by (intro dropWhile_append2) blast
    ultimately show ?thesis using dp by simp
  next
    case False
    then obtain x where "x \<in> set (rev q)" "\<not> ?P x" by blast
    then show ?thesis by (rule dropWhile_append1)
  qed
  then show ?thesis by (simp add: TrimRight_def)
qed

text \<open>The shape of every entity that \<open>matchURL\<close> emits.\<close>

lemma matchURL_shape:
  assumes "e \<in> set (matchURL s)"
  obtains b e1 p body where
    "p = ''http://'' \<or> p = ''https://''"
    "b + length p < e1" "e1 \<le> length s"
    "slice s (int b) (int e1) = p @ body" "body \<noteq> []"
    "\<forall>c \<in> set body. cls_url (of_char c)"
    "e = \<lparr>Text = TrimRight (p @ body) ''.,;:!?)]}>'', Start = int b,
           End = int b + int (length (TrimRight (p @ body) ''.,;:!?)]}>'')),
           Type = URL, Labeled = False\<rparr>"
proof -
  from assms obtain m where m: "m \<in> set (FindAllStringIndex reURL s)"
    and e: "e = (let text = TrimRight (slice s (m ! 0) (m ! 1)) ''.,;:!?)]}>'';
                     end = m ! 0 + int (length text)
                 in \<lparr>Text = text, Start = m ! 0, End = end, Type = URL, Labeled = False\<rparr>)"
    by (auto simp: matchURL_def)
  from m obtain b e1 cs ts where me: "m = [int b, int e1]" and b: "b \<le> length s"
    and ms: "ms reURL s (b, []) = (e1, cs) # ts" by (rule FindAllStringIndex_sound)
  from ms obtain p where p: "p = ''http://'' \<or> p = ''https://''"
    and tp: "take (length p) (drop b s) = p"
    and re: "e1 \<in> set (run_ends cls_url s (b + length p))" by (rule reURL_shape)
  from run_ends_bounds[OF re] have e1: "b + length p < e1" "e1 \<le> length s" by simp_all
  let ?body = "take (e1 - (b + length p)) (drop (b + length p) s)"
  have "take (e1 - b) (drop b s) = take (length p + (e1 - (b + length p))) (drop b s)"
    using e1 by simp
  also have "\<dots> = take (length p) (drop b s) @ take (e1 - (b + length p)) (drop (length p) (drop b s))"
    by (rule take_add)
  also have "\<dots> = p @ ?body" using tp by (simp add: add.commute)
  finally have sl: "slice s (int b) (int e1) = p @ ?body" by (simp add: slice_nat)
  from e1 have ne: "?body \<noteq> []" by simp
  have bts: "\<forall>c \<in> set ?body. cls_url (of_char c)"
  proof
    fix c assume "c \<in> set ?body"
    then obtain k where k: "k < length ?body" "c = ?body ! k" by (auto simp: in_set_conv_nth)
    from k e1 have kk: "k < e1 - (b + length p)" by simp
    with k e1 have c: "c = s ! (b + length p + k)" by simp
    have "\<forall>x. 0x80 \<le> x \<longrightarrow> cls_url x" by (simp add: cls_url_def url_excluded_def cls_space_def)
    from run_ends_bytes[OF re this, of "b + length p + k"] kk
    have "cls_url (byte_at s (b + length p + k))" by simp
    with c show "cls_url (of_char c)" by (simp add: byte_at_def)
  qed
  from e me sl have "e = \<lparr>Text = TrimRight (p @ ?body) ''.,;:!?)]}>'', Start = int b,
           End = int b + int (length (TrimRight (p @ ?body) ''.,;:!?)]}>'')),
           Type = URL, Labeled = False\<rparr>" by (simp add: Let_def)
  with p e1 sl ne bts that show ?thesis by blast
qed

lemma matchURL_ok:
  assumes "e \<in> set (matchURL s)"
  shows "cand_ok s e"
proof -
  from assms obtain b e1 p body where p: "p = ''http://'' \<or> p = ''https://''"
    and e1: "b + length p < e1" "e1 \<le> length s"
    and sl: "slice s (int b) (int e1) = p @ body"
    and e: "e = \<lparr>Text = TrimRight (p @ body) ''.,;:!?)]}>'', Start = int b,
           End = int b + int (length (TrimRight (p @ body) ''.,;:!?)]}>'')),
           Type = URL, Labeled = False\<rparr>"
    by (rule matchURL_shape)
  let ?t = "TrimRight (p @ body) ''.,;:!?)]}>''"
  from p have "p \<noteq> []" "last p \<notin> set ''.,;:!?)]}>''" by auto
  from TrimRight_keep[OF this] have t: "?t = p @ TrimRight body ''.,;:!?)]}>''" .
  with p have pos: "0 < length ?t" by auto
  from TrimRight_decomp[of "p @ body" "''.,;:!?)]}>''"] obtain rest where
    rest: "p @ body = ?t @ rest" by blast
  from sl have raw: "take (e1 - b) (drop b s) = p @ body" by (simp add: slice_nat)
  then have "length (p @ body) = e1 - b" using e1 by (metis length_take length_drop min.absorb2 diff_le_mono)
  with rest have le: "length ?t \<le> e1 - b" by (metis length_append le_add1)
  have "take (length ?t) (drop b s) = take (length ?t) (take (e1 - b) (drop b s))"
    using le by simp
  also have "\<dots> = take (length ?t) (?t @ rest)" using raw rest by simp
  also have "\<dots> = ?t" by simp
  finally have "slice s (int b) (int b + int (length ?t)) = ?t" by (simp add: slice_def)
  with e pos le e1 show ?thesis by (simp add: cand_ok_def)
qed

lemma minlen_patterns:
  "0 < minlen rePhoneIntl" "0 < minlen rePhoneLocal" "0 < minlen reEmail" "0 < minlen reIBAN"
  "0 < minlen reLicensePlate" "0 < minlen reFINBare" "0 < minlen reVOENBare"
  by (simp_all add: rePhoneIntl_def rePhoneLocal_def reEmail_def reIBAN_def reLicensePlate_def
      reFINBare_def reVOENBare_def lit_def)

lemma reFINLabeled_split:
  "reFINLabeled = cats ([WordB, liti CHR ''F'' CHR ''f'', liti CHR ''I'' CHR ''i'',
     liti CHR ''N'' CHR ''n'', Cls cls_colon_space, Quest (Cls cls_space)]
     @ [Cap 1 (Times 7 (Cls cls_fin_fold)), WordB])"
  by (simp add: reFINLabeled_def)

lemma reVOENLabeled_split:
  "reVOENLabeled = cats ([WordB, liti CHR ''V'' CHR ''v'', Cls cls_o_fold,
     liti CHR ''E'' CHR ''e'', liti CHR ''N'' CHR ''n'', Cls cls_colon_space,
     Quest (Cls cls_space)] @ [Cap 1 (Times 10 (Cls cls_digit)), WordB])"
  by (simp add: reVOENLabeled_def)

lemma matchFIN_labeled_ok:
  "sub \<in> set (FindAllStringSubmatchIndex reFINLabeled s) \<Longrightarrow> cand_ok s (labeled_entity_of s ty sub)"
  by (rule labeled_entity_ok[OF reFINLabeled_split])
     (simp_all add: liti_def reFINLabeled_def)

lemma matchVOEN_labeled_ok:
  "sub \<in> set (FindAllStringSubmatchIndex reVOENLabeled s) \<Longrightarrow> cand_ok s (labeled_entity_of s ty sub)"
  by (rule labeled_entity_ok[OF reVOENLabeled_split])
     (simp_all add: liti_def reVOENLabeled_def)

lemma candidates_ok: "e \<in> set (candidates s) \<Longrightarrow> cand_ok s e"
  unfolding candidates_def matchPhone_def matchEmail_def matchIBAN_def matchLicensePlate_def
    matchFIN_def matchVOEN_def
  using minlen_patterns
  by (auto intro: matchURL_ok entity_of_ok matchFIN_labeled_ok matchVOEN_labeled_ok)

section \<open>The resolver and the recognizer\<close>

lemma sorts_mset: "sorts srt \<Longrightarrow> strict_weak lt \<Longrightarrow> mset (srt lt xs) = mset xs"
  unfolding sorts_def by blast

lemma sorts_sorted:
  "sorts srt \<Longrightarrow> strict_weak lt \<Longrightarrow> sorted_wrt (\<lambda>a b. \<not> lt b a) (srt lt xs)"
  unfolding sorts_def by blast

lemma sorts_set: "sorts srt \<Longrightarrow> strict_weak lt \<Longrightarrow> set (srt lt xs) = set xs"
  using sorts_mset[of srt lt xs] by (metis set_mset_mset)

lemma resolveOverlaps_eq:
  "resolveOverlaps srt es =
     (if length es \<le> 1 then es else spec_sweep (srt less_overlap es) 0)"
  by (simp add: resolveOverlaps_def sweep_spec_sweep)

lemma resolveOverlaps_subset:
  assumes "sorts srt"
  shows "set (resolveOverlaps srt es) \<subseteq> set es"
proof (cases "length es \<le> 1")
  case True
  then show ?thesis by (simp add: resolveOverlaps_eq)
next
  case False
  have "set (spec_sweep (srt less_overlap es) 0) \<subseteq> set (srt less_overlap es)"
    by (rule spec_sweep_subset)
  also have "\<dots> = set es" by (rule sorts_set[OF assms strict_weak_less_overlap])
  finally show ?thesis using False by (simp add: resolveOverlaps_eq)
qed

lemma resolveOverlaps_chain:
  assumes "sorts srt" "\<forall>e \<in> set es. Start e \<le> End e"
  shows "sorted_wrt (\<lambda>a b. End a \<le> Start b) (resolveOverlaps srt es)"
proof (cases "length es \<le> 1")
  case True
  then have "es = [] \<or> (\<exists>x. es = [x])" by (cases es) auto
  then show ?thesis using True by (auto simp: resolveOverlaps_eq)
next
  case False
  from assms have "\<forall>e \<in> set (srt less_overlap es). Start e \<le> End e"
    by (simp add: sorts_set[OF assms(1) strict_weak_less_overlap])
  from spec_sweep_chain[OF this, of 0] False show ?thesis by (simp add: resolveOverlaps_eq)
qed

lemma chain_strict:
  "sorted_wrt (\<lambda>a b. End a \<le> Start b) xs \<Longrightarrow> \<forall>e \<in> set xs. Start e < End e \<Longrightarrow>
   sorted_wrt (\<lambda>a b. Start a < End a \<and> End a \<le> Start b) xs"
  by (induction xs) auto

text \<open>After the sweep the final sort by start has nothing left to move.\<close>

lemma recognize_eq:
  assumes "sorts srt"
  shows "recognize srt s = (if candidates s = [] then [] else resolveOverlaps srt (candidates s))"
proof (cases "candidates s = []")
  case True
  then show ?thesis by (simp add: recognize_def)
next
  case False
  let ?r = "resolveOverlaps srt (candidates s)"
  have ok: "\<forall>e \<in> set (candidates s). Start e < End e"
    using candidates_ok by (auto simp: cand_ok_def)
  then have "\<forall>e \<in> set (candidates s). Start e \<le> End e" by auto
  from resolveOverlaps_chain[OF assms this]
  have chain: "sorted_wrt (\<lambda>a b. End a \<le> Start b) ?r" .
  have "\<forall>e \<in> set ?r. Start e < End e" using ok resolveOverlaps_subset[OF assms] by blast
  with chain have "sorted_wrt (\<lambda>a b. Start a < End a \<and> End a \<le> Start b) ?r"
    by (rule chain_strict)
  then have "sorted_wrt less_start ?r"
    by (rule sorted_wrt_mono_rel[rotated]) (auto simp: less_start_def)
  from sorts_unique[OF assms strict_weak_less_start refl this]
  have "srt less_start ?r = ?r" .
  with False show ?thesis by (simp add: recognize_def Let_def)
qed

lemma recognize_subset:
  assumes "sorts srt"
  shows "set (recognize srt s) \<subseteq> set (candidates s)"
  using resolveOverlaps_subset[OF assms, of "candidates s"]
  by (simp add: recognize_eq[OF assms])


lemma int64_id: "- (2 ^ 63) \<le> x \<Longrightarrow> x < 2 ^ 63 \<Longrightarrow> int64 x = x"
proof -
  assume a: "- (2 ^ 63) \<le> x" "x < 2 ^ 63"
  then have "0 \<le> x + 2 ^ 63" "x + 2 ^ 63 < 2 ^ 64" by simp_all
  then have "(x + 2 ^ 63) mod 2 ^ 64 = x + 2 ^ 63" by (rule mod_pos_pos_trivial)
  then show ?thesis by (simp add: int64_def)
qed

lemma less_overlap_spec:
  assumes "offsets_ok a" "offsets_ok b"
  shows "less_overlap a b = spec_before a b"
proof -
  from assms have "int64 (End a - Start a) = End a - Start a" "int64 (End b - Start b) = End b - Start b"
    by (auto simp: offsets_ok_def intro!: int64_id)
  then show ?thesis by (auto simp: less_overlap_def spec_before_def Let_def)
qed

lemma resolveOverlaps_head:
  assumes "sorts srt" "es \<noteq> []" "\<forall>e \<in> set es. 0 \<le> Start e"
  shows "resolveOverlaps srt es \<noteq> [] \<and> hd (resolveOverlaps srt es) \<in> set es
         \<and> (\<forall>x \<in> set es. \<not> less_overlap x (hd (resolveOverlaps srt es)))"
proof (cases "length es \<le> 1")
  case True
  with assms(2) obtain x where x: "es = [x]" by (cases es) auto
  have "\<not> less_overlap x x" using strict_weak_less_overlap by (simp add: strict_weak_def)
  with x show ?thesis by (simp add: resolveOverlaps_eq)
next
  case False
  let ?ranked = "srt less_overlap es"
  have m: "mset ?ranked = mset es" by (rule sorts_mset[OF assms(1) strict_weak_less_overlap])
  then have st: "set ?ranked = set es" by (metis set_mset_mset)
  from m assms(2) obtain y ys where r: "?ranked = y # ys" by (cases ?ranked) auto
  have so: "sorted_wrt (\<lambda>a b. \<not> less_overlap b a) ?ranked"
    by (rule sorts_sorted[OF assms(1) strict_weak_less_overlap])
  from r st have y: "y \<in> set es" by auto
  with assms(3) have "0 \<le> Start y" by simp
  with r False have res: "resolveOverlaps srt es = y # spec_sweep ys (End y)"
    by (simp add: resolveOverlaps_eq)
  have "\<not> less_overlap y y" using strict_weak_less_overlap by (simp add: strict_weak_def)
  moreover from so r have "\<forall>x \<in> set ys. \<not> less_overlap x y" by simp
  ultimately have "\<forall>x \<in> set es. \<not> less_overlap x y" using st r by auto
  with res y show ?thesis by simp
qed

lemma candidates_fin_and_phone:
  "candidates ''FIN: 5ARPXK2, tel +994501234567'' =
     [\<lparr>Text = ''+994501234567'', Start = 18, End = 31, Type = Phone, Labeled = False\<rparr>,
      \<lparr>Text = ''5ARPXK2'', Start = 5, End = 12, Type = FIN, Labeled = True\<rparr>,
      \<lparr>Text = ''5ARPXK2'', Start = 5, End = 12, Type = FIN, Labeled = False\<rparr>]"
  by code_simp

lemma candidates_iban:
  "candidates ''AZ21NABZ00000000137010001944'' =
     [\<lparr>Text = ''AZ21NABZ00000000137010001944'', Start = 0, End = 28, Type = IBAN,
       Labeled = False\<rparr>]"
  by code_simp

section \<open>Completeness of the search, bare patterns and the labeled FIN pattern\<close>

lemma url_excluded_reading:
  "\<not> url_excluded (of_char c) \<Longrightarrow> \<not> cls_space (of_char c) \<and> c \<notin> set ''<>{}''"
  by (auto simp: url_excluded_def)

lemma step_no_skip:
  assumes "step s j = Some (r, w)" "j < i" "ascii_at s i"
  shows "j + w \<le> i"
proof (rule ccontr)
  assume "\<not> j + w \<le> i"
  then have in_rune: "i - j < w" "j + (i - j) = i" using assms(2) by simp_all
  from step_cases[OF assms(1)] have b: "j + w \<le> length s" by simp
  with in_rune have il: "i < length s" by simp
  with assms(3) have asc: "byte_at s i < 0x80" by (simp add: ascii_at_def)
  from step_cases[OF assms(1)] show False
  proof (elim conjE disjE)
    assume "w = 1"
    with in_rune assms(2) show False by simp
  next
    assume "\<forall>k<w. 0x80 \<le> byte_at s (j + k)"
    with in_rune have "0x80 \<le> byte_at s i" by metis
    with asc show False by simp
  qed
qed

lemma find_from_first:
  "ms r s (i, []) = (e, cs) # ts \<Longrightarrow> ascii_at s i \<Longrightarrow> pos \<le> i \<Longrightarrow>
   \<exists>b e' cs'. find_from r s pos = Some (b, e', cs') \<and> b \<le> i \<and> (b = i \<longrightarrow> e' = e \<and> cs' = cs)"
proof (induction r s pos rule: find_from.induct)
  case (1 r s pos)
  show ?case
  proof (cases "ms r s (pos, [])")
    case (Cons t ts')
    obtain e0 c0 where t: "t = (e0, c0)" by (cases t)
    from Cons t have f: "find_from r s pos = Some (pos, e0, c0)" by (simp add: find_from_Cons)
    from Cons t "1.prems"(1) have "pos = i \<longrightarrow> e0 = e \<and> c0 = cs" by auto
    with f "1.prems"(3) show ?thesis by simp
  next
    case Nil
    with "1.prems"(1) have ne: "pos \<noteq> i" by auto
    with "1.prems"(3) have lt: "pos < i" by simp
    from "1.prems"(2) lt have "pos < length s" by (simp add: ascii_at_def)
    then obtain x w where st: "step s pos = Some (x, w)" by (cases "decode_rune s pos") (simp add: step_def)
    from step_no_skip[OF st lt "1.prems"(2)] have le: "pos + w \<le> i" .
    from "1.IH"[OF Nil st refl "1.prems"(1,2) le]
    obtain b e' cs' where "find_from r s (pos + w) = Some (b, e', cs')" "b \<le> i"
      "b = i \<longrightarrow> e' = e \<and> cs' = cs" by blast
    with Nil st show ?thesis by (simp add: find_from_Nil)
  qed
qed

text \<open>A match at a rune boundary is delivered by the \<open>FindAll\<close> loop when no earlier match
  reaches over its start.\<close>

lemma all_matches_complete:
  "ms r s (i, []) = (e, cs) # ts \<Longrightarrow> i < e \<Longrightarrow> ascii_at s i \<Longrightarrow> pos \<le> i \<Longrightarrow>
   (\<forall>j e' cs' ts'. j < i \<and> ms r s (j, []) = (e', cs') # ts' \<longrightarrow> j < e' \<and> e' \<le> i) \<Longrightarrow>
   (i, e, cs) \<in> set (all_matches r s pos prev)"
proof (induction r s pos prev rule: all_matches.induct)
  case (1 r s pos prev)
  from "1.prems"(3,4) have le: "\<not> length s < pos" by (simp add: ascii_at_def)
  from find_from_first[OF "1.prems"(1,3,4)] obtain b e' cs' where
    ff: "find_from r s pos = Some (b, e', cs')" and bi: "b \<le> i"
    and eq: "b = i \<longrightarrow> e' = e \<and> cs' = cs" by blast
  from le have pl: "pos \<le> length s" by simp
  from find_from_sound[OF ff pl] obtain ts' where pb: "pos \<le> b"
    and mb: "ms r s (b, []) = (e', cs') # ts'" by blast
  show ?case
  proof (cases "b = i")
    case True
    with eq "1.prems"(2) pb have "e' \<noteq> pos" "e' = e" "cs' = cs" by simp_all
    with True le ff show ?thesis by (simp add: all_matches_unfold[of r s pos prev])
  next
    case False
    with bi have "b < i" by simp
    with "1.prems"(5) mb have st: "b < e'" "e' \<le> i" by blast+
    with pb have ne: "e' \<noteq> pos" by simp
    from "1.IH"(2)[OF le ff refl refl ne "1.prems"(1,2,3) st(2) "1.prems"(5)]
    have "(i, e, cs) \<in> set (all_matches r s e' (Some e'))" .
    with ne le ff show ?thesis by (simp add: all_matches_unfold[of r s pos prev])
  qed
qed

lemma is_word_char_ascii: "is_word_char x \<Longrightarrow> x < 0x80"
  by (auto simp: is_word_char_def)

lemma Times_Cls_elim:
  "(e, cs') \<in> set (ms (Times n (Cls c)) s (i, cs)) \<Longrightarrow> \<forall>x. c x \<longrightarrow> x < 0x80 \<Longrightarrow>
   e = i + n \<and> (\<forall>k<n. c (byte_at s (i + k))) \<and> cs' = cs"
proof (induction n arbitrary: i)
  case 0
  then show ?case by simp
next
  case (Suc n)
  from Suc.prems(1) obtain m cm where m: "(m, cm) \<in> set (ms (Cls c) s (i, cs))"
    and e: "(e, cs') \<in> set (ms (Times n (Cls c)) s (m, cm))" by (rule ms_Times_Suc_elim)
  from m obtain r w where st: "step s i = Some (r, w)" and c: "c r" and mm: "m = i + w" "cm = cs"
    by (rule ms_Cls_elim)
  from c Suc.prems(2) have "r < 0x80" by simp
  with step_cases[OF st] have w: "w = 1" "r = byte_at s i" by auto
  from e mm w have "(e, cs') \<in> set (ms (Times n (Cls c)) s (i + 1, cs))" by simp
  from Suc.IH[OF this Suc.prems(2)]
  have ih: "e = i + 1 + n" "\<forall>k<n. c (byte_at s (i + 1 + k))" "cs' = cs" by simp_all
  have "\<forall>k<Suc n. c (byte_at s (i + k))"
  proof (intro allI impI)
    fix k assume k: "k < Suc n"
    show "c (byte_at s (i + k))"
    proof (cases k)
      case 0
      with c w show ?thesis by simp
    next
      case (Suc k')
      with k ih(2) show ?thesis by simp
    qed
  qed
  with ih show ?case by simp
qed

lemma Times_Cls_intro:
  "i + n \<le> length s \<Longrightarrow> \<forall>k<n. c (byte_at s (i + k)) \<and> byte_at s (i + k) < 0x80 \<Longrightarrow>
   ms (Times n (Cls c)) s (i, cs) = [(i + n, cs)]"
proof (induction n arbitrary: i)
  case 0
  then show ?case by simp
next
  case (Suc n)
  from Suc.prems have i: "i < length s" and c0: "c (byte_at s i)" "byte_at s i < 0x80"
    by (simp, force, force)
  from step_ascii[OF i c0(2)] c0(1) have one: "ms (Cls c) s (i, cs) = [(i + 1, cs)]" by simp
  from Suc.prems have "i + 1 + n \<le> length s"
    "\<forall>k<n. c (byte_at s (i + 1 + k)) \<and> byte_at s (i + 1 + k) < 0x80" by (simp, force)
  from Suc.IH[OF this] have "ms (Times n (Cls c)) s (i + 1, cs) = [(i + 1 + n, cs)]" .
  with one show ?case by simp
qed

lemma bare_match_intro:
  assumes "i + n \<le> length s" "\<forall>k<n. c (byte_at s (i + k)) \<and> byte_at s (i + k) < 0x80"
    "word_boundary s i" "word_boundary s (i + n)"
  shows "ms (cats [WordB, Times n (Cls c), WordB]) s (i, []) = [(i + n, [])]"
  using Times_Cls_intro[OF assms(1,2), of "[]"] assms(3,4) by simp

lemma bare_match_elim:
  assumes "ms (cats [WordB, Times n (Cls c), WordB]) s (j, []) = (e, cs) # ts"
    "\<forall>x. c x \<longrightarrow> x < 0x80"
  shows "e = j + n \<and> (\<forall>k<n. c (byte_at s (j + k))) \<and> word_boundary s j \<and> word_boundary s e"
proof -
  from assms(1) have "(e, cs) \<in> set (ms (Cat WordB (Cat (Times n (Cls c)) (Cat WordB Eps))) s (j, []))"
    by simp
  then obtain m1 c1 where 1: "(m1, c1) \<in> set (ms WordB s (j, []))"
    and r1: "(e, cs) \<in> set (ms (Cat (Times n (Cls c)) (Cat WordB Eps)) s (m1, c1))"
    by (rule ms_Cat_elim)
  from r1 obtain m2 c2 where 2: "(m2, c2) \<in> set (ms (Times n (Cls c)) s (m1, c1))"
    and r2: "(e, cs) \<in> set (ms (Cat WordB Eps) s (m2, c2))" by (rule ms_Cat_elim)
  from 1 have w1: "word_boundary s j" "m1 = j" by (auto split: if_splits)
  from r2 have w2: "word_boundary s m2" "e = m2" by (auto split: if_splits)
  from Times_Cls_elim[OF 2 assms(2)] w1 w2 show ?thesis by simp
qed

text \<open>A run of \<open>n\<close> bytes of a class of ASCII word characters, with no ASCII word
  character next to it on either side, is found by the bare pattern over that class.\<close>

lemma bare_complete:
  assumes cw: "\<forall>x. c x \<longrightarrow> is_word_char x" and n: "0 < n" and len: "i + n \<le> length s"
    and run: "\<forall>k<n. c (byte_at s (i + k))"
    and before: "\<not> word_before s i" and after: "\<not> word_after s (i + n)"
  shows "[int i, int (i + n)] \<in> set (FindAllStringIndex (cats [WordB, Times n (Cls c), WordB]) s)"
proof -
  let ?r = "cats [WordB, Times n (Cls c), WordB]"
  have asc: "\<forall>x. c x \<longrightarrow> x < 0x80" using cw is_word_char_ascii by blast
  from run asc have run': "\<forall>k<n. c (byte_at s (i + k)) \<and> byte_at s (i + k) < 0x80" by blast
  from run n have c0: "c (byte_at s i)" by force
  from n have "n - 1 < n" by simp
  with run have "c (byte_at s (i + (n - 1)))" by blast
  moreover from n have "i + (n - 1) = i + n - 1" by simp
  ultimately have cl: "c (byte_at s (i + n - 1))" by simp
  from c0 cw len n have wa: "word_after s i" by (simp add: word_after_def)
  from cl cw len n have wb: "word_before s (i + n)" by (simp add: word_before_def)
  from wa before have b1: "word_boundary s i" by (simp add: word_boundary_def)
  from wb after have b2: "word_boundary s (i + n)" by (simp add: word_boundary_def)
  from bare_match_intro[OF len run' b1 b2] have m: "ms ?r s (i, []) = (i + n, []) # []" by simp
  from c0 asc len n have aa: "ascii_at s i" by (simp add: ascii_at_def)
  have ns: "\<forall>j e' cs' ts'. j < i \<and> ms ?r s (j, []) = (e', cs') # ts' \<longrightarrow> j < e' \<and> e' \<le> i"
  proof (intro allI impI, elim conjE)
    fix j e' cs' ts' assume j: "j < i" and mj: "ms ?r s (j, []) = (e', cs') # ts'"
    from bare_match_elim[OF mj asc] have e': "e' = j + n" and rj: "\<forall>k<n. c (byte_at s (j + k))"
      by simp_all
    have "e' \<le> i"
    proof (rule ccontr)
      assume "\<not> e' \<le> i"
      with e' j have k: "i - 1 - j < n" "j + (i - 1 - j) = i - 1" by simp_all
      with rj have "c (byte_at s (i - 1))" by metis
      with cw have "is_word_char (byte_at s (i - 1))" by simp
      with j len have "word_before s i" by (simp add: word_before_def)
      with before show False by simp
    qed
    with e' n show "j < e' \<and> e' \<le> i" by simp
  qed
  from all_matches_complete[OF m _ aa _ ns, of 0 None] n
  have "(i, i + n, []) \<in> set (all_matches ?r s 0 None)" by simp
  then show ?thesis by (force simp: FindAllStringIndex_def)
qed

lemma bare_in_context:
  assumes cw: "\<forall>x. c x \<longrightarrow> is_word_char x" and d: "d \<noteq> []" "\<forall>ch \<in> set d. c (of_char ch)"
    and L: "L = [] \<or> \<not> is_word_char (of_char (last L))"
    and R: "R = [] \<or> \<not> is_word_char (of_char (hd R))"
  shows "\<lparr>Text = d, Start = int (length L), End = int (length L) + int (length d), Type = ty,
           Labeled = False\<rparr>
         \<in> set (map (entity_of (L @ d @ R) ty)
                  (FindAllStringIndex (cats [WordB, Times (length d) (Cls c), WordB]) (L @ d @ R)))"
proof -
  let ?s = "L @ d @ R"
  let ?i = "length L"
  let ?n = "length d"
  have n: "0 < ?n" using d(1) by simp
  have len: "?i + ?n \<le> length ?s" by simp
  have run: "\<forall>k<?n. c (byte_at ?s (?i + k))"
  proof (intro allI impI)
    fix k assume k: "k < ?n"
    then have "?s ! (?i + k) = d ! k" by (simp add: nth_append)
    moreover from k d(2) have "c (of_char (d ! k))" by simp
    ultimately show "c (byte_at ?s (?i + k))" by (simp add: byte_at_def)
  qed
  have before: "\<not> word_before ?s ?i"
  proof (cases "L = []")
    case True
    then show ?thesis by (simp add: word_before_def)
  next
    case False
    then have "?s ! (?i - 1) = last L" by (simp add: nth_append last_conv_nth)
    with L False show ?thesis by (simp add: word_before_def byte_at_def)
  qed
  have after: "\<not> word_after ?s (?i + ?n)"
  proof (cases "R = []")
    case True
    then show ?thesis by (simp add: word_after_def)
  next
    case False
    then have "?s ! (?i + ?n) = hd R" by (simp add: nth_append hd_conv_nth)
    with R False show ?thesis by (simp add: word_after_def byte_at_def)
  qed
  from bare_complete[OF cw n len run before after]
  have m: "[int ?i, int (?i + ?n)] \<in> set (FindAllStringIndex (cats [WordB, Times ?n (Cls c), WordB]) ?s)" .
  have "take (?i + ?n - ?i) (drop ?i ?s) = d" by simp
  then have "slice ?s (int ?i) (int (?i + ?n)) = d" by (simp only: slice_nat)
  then have "entity_of ?s ty [int ?i, int (?i + ?n)]
      = \<lparr>Text = d, Start = int ?i, End = int ?i + int ?n, Type = ty, Labeled = False\<rparr>"
    by (simp add: entity_of_def)
  with m show ?thesis by (metis image_eqI set_map)
qed

lemma az_diacritics_not_word:
  "l \<in> set az_diacritics \<Longrightarrow>
   l \<noteq> [] \<and> \<not> is_word_char (of_char (last l)) \<and> \<not> is_word_char (of_char (hd l))"
  by (auto simp: az_diacritics_def is_word_char_def)

lemma cls_digit_word: "\<forall>x. cls_digit x \<longrightarrow> is_word_char x"
  by (auto simp: cls_digit_def rng_def is_word_char_def)

lemma cls_fin_word: "\<forall>x. cls_fin x \<longrightarrow> is_word_char x"
  by (auto simp: cls_fin_def rng_def is_word_char_def)

lemma voen_in_context:
  assumes "length d = 10" "\<forall>ch \<in> set d. cls_digit (of_char ch)"
    "L = [] \<or> \<not> is_word_char (of_char (last L))" "R = [] \<or> \<not> is_word_char (of_char (hd R))"
  shows "\<lparr>Text = d, Start = int (length L), End = int (length L) + 10, Type = VOEN,
           Labeled = False\<rparr> \<in> set (matchVOEN (L @ d @ R))"
proof -
  from assms(1) have ne: "d \<noteq> []" by auto
  from bare_in_context[OF cls_digit_word ne assms(2,3,4), of VOEN] assms(1)
  show ?thesis by (simp add: matchVOEN_def reVOENBare_def)
qed

lemma fin_in_context:
  assumes "length f = 7" "\<forall>ch \<in> set f. cls_fin (of_char ch)"
    "L = [] \<or> \<not> is_word_char (of_char (last L))" "R = [] \<or> \<not> is_word_char (of_char (hd R))"
  shows "\<lparr>Text = f, Start = int (length L), End = int (length L) + 7, Type = FIN,
           Labeled = False\<rparr> \<in> set (matchFIN (L @ f @ R))"
proof -
  from assms(1) have ne: "f \<noteq> []" by auto
  from bare_in_context[OF cls_fin_word ne assms(2,3,4), of FIN] assms(1)
  show ?thesis by (simp add: matchFIN_def reFINBare_def)
qed

lemma runes_span_same: "runes_span s i i = Some []"
  by (subst runes_span.simps) simp

lemma runes_span_step:
  "i < e \<Longrightarrow> step s i = Some (r, w) \<Longrightarrow>
   runes_span s i e = map_option ((#) r) (runes_span s (i + w) e)"
  by (subst runes_span.simps) simp

lemma runes_span_Some_elim:
  assumes "runes_span s i e = Some (r # rs)"
  obtains w where "step s i = Some (r, w)" "runes_span s (i + w) e = Some rs" "i < e"
proof -
  from assms have ne: "i \<noteq> e" by (auto simp: runes_span_same)
  from assms have nlt: "\<not> e < i" by (subst (asm) runes_span.simps) (simp split: if_splits)
  from ne nlt have lt: "i < e" by simp
  from assms ne nlt obtain r' w where st: "step s i = Some (r', w)"
    by (subst (asm) runes_span.simps) (auto split: option.splits)
  from assms runes_span_step[OF lt st] have "r' = r" "runes_span s (i + w) e = Some rs" by auto
  with st lt that show ?thesis by simp
qed

lemma Times_Cls_runes:
  "(e, cs') \<in> set (ms (Times n (Cls c)) s (i, cs)) \<Longrightarrow>
   \<exists>rs. runes_span s i e = Some rs \<and> length rs = n \<and> list_all c rs"
proof (induction n arbitrary: i)
  case 0
  then show ?case by (simp add: runes_span_same)
next
  case (Suc n)
  from Suc.prems(1) obtain m cm where m: "(m, cm) \<in> set (ms (Cls c) s (i, cs))"
    and e: "(e, cs') \<in> set (ms (Times n (Cls c)) s (m, cm))" by (rule ms_Times_Suc_elim)
  from m obtain r w where st: "step s i = Some (r, w)" and c: "c r" and mm: "m = i + w" "cm = cs"
    by (rule ms_Cls_elim)
  from e mm have e': "(e, cs') \<in> set (ms (Times n (Cls c)) s (i + w, cs))" by simp
  from Suc.IH[OF e'] obtain rs where rs: "runes_span s (i + w) e = Some rs" "length rs = n"
    "list_all c rs" by blast
  from ms_bounds[OF e'] step_bounds[OF st] have "i < e" by simp
  from runes_span_step[OF this st] rs c show ?case by simp
qed

lemma runes_Times_Cls:
  "runes_span s i e = Some rs \<Longrightarrow> list_all c rs \<Longrightarrow>
   (e, cs) \<in> set (ms (Times (length rs) (Cls c)) s (i, cs))"
proof (induction rs arbitrary: i)
  case Nil
  then have "i = e"
    by (subst (asm) runes_span.simps) (auto split: if_splits option.splits)
  then show ?case by simp
next
  case (Cons r rs)
  from Cons.prems(1) obtain w where st: "step s i = Some (r, w)"
    and rest: "runes_span s (i + w) e = Some rs" by (rule runes_span_Some_elim)
  from Cons.prems(2) have c: "c r" "list_all c rs" by simp_all
  from st c(1) have "(i + w, cs) \<in> set (ms (Cls c) s (i, cs))" by simp
  moreover from Cons.IH[OF rest c(2)]
  have "(e, cs) \<in> set (ms (Times (length rs) (Cls c)) s (i + w, cs))" .
  ultimately show ?case by force
qed

lemma runes_span_det:
  "runes_span s i e = Some rs \<Longrightarrow> runes_span s i e' = Some rs' \<Longrightarrow> length rs = length rs' \<Longrightarrow>
   e = e'"
proof (induction rs arbitrary: i rs')
  case Nil
  from Nil.prems(1) have 1: "i = e"
    by (subst (asm) runes_span.simps) (auto split: if_splits option.splits)
  from Nil.prems(2,3) have 2: "i = e'"
    by (subst (asm) runes_span.simps) (auto split: if_splits option.splits)
  from 1 2 show ?case by simp
next
  case (Cons r rs)
  from Cons.prems(3) obtain r' rs2 where rs': "rs' = r' # rs2" by (cases rs') auto
  from Cons.prems(1) obtain w where st: "step s i = Some (r, w)"
    and rest: "runes_span s (i + w) e = Some rs" by (rule runes_span_Some_elim)
  from Cons.prems(2) rs' obtain w' where st': "step s i = Some (r', w')"
    and rest': "runes_span s (i + w') e' = Some rs2" by (auto elim: runes_span_Some_elim)
  from st st' have "w' = w" by simp
  with rest' Cons.IH[OF rest, of rs2] Cons.prems(3) rs' show ?case by simp
qed

lemma Times_Cls_ascii_bytes:
  "(e, cs') \<in> set (ms (Times n (Cls c)) s (i, cs)) \<Longrightarrow> i \<le> p \<Longrightarrow> p < e \<Longrightarrow>
   byte_at s p < 0x80 \<Longrightarrow> c (byte_at s p)"
proof (induction n arbitrary: i)
  case 0
  then show ?case by simp
next
  case (Suc n)
  from Suc.prems(1) obtain m cm where m: "(m, cm) \<in> set (ms (Cls c) s (i, cs))"
    and e: "(e, cs') \<in> set (ms (Times n (Cls c)) s (m, cm))" by (rule ms_Times_Suc_elim)
  from m obtain r w where st: "step s i = Some (r, w)" and c: "c r" and mm: "m = i + w" "cm = cs"
    by (rule ms_Cls_elim)
  show ?case
  proof (cases "p < i + w")
    case True
    from step_cases[OF st] show ?thesis
    proof (elim conjE disjE)
      assume a: "r = byte_at s i" "w = 1"
      with True Suc.prems(2) have "p = i" by simp
      with a c show ?thesis by simp
    next
      assume all: "\<forall>k<w. 0x80 \<le> byte_at s (i + k)"
      from True Suc.prems(2) have "p - i < w" "i + (p - i) = p" by simp_all
      with all have "0x80 \<le> byte_at s p" by metis
      with Suc.prems(4) show ?thesis by simp
    qed
  next
    case False
    then have "i + w \<le> p" by simp
    from Suc.IH[OF _ this Suc.prems(3,4)] e mm show ?thesis by simp
  qed
qed

lemma ms_Cat_intro:
  "u \<in> set (ms a s t) \<Longrightarrow> x \<in> set (ms b s u) \<Longrightarrow> x \<in> set (ms (Cat a b) s t)"
  by auto

lemma Cls_ascii_elim:
  assumes "(m, cm) \<in> set (ms (Cls c) s (i, cs))" "\<forall>x. c x \<longrightarrow> x < 0x80"
  shows "m = i + 1 \<and> i < length s \<and> c (byte_at s i) \<and> cm = cs"
proof -
  from assms(1) obtain r w where st: "step s i = Some (r, w)" and c: "c r"
    and mm: "m = i + w" "cm = cs" by (rule ms_Cls_elim)
  from c assms(2) have "r < 0x80" by simp
  with step_cases[OF st] have "w = 1" "r = byte_at s i" "i < length s" by auto
  with c mm show ?thesis by simp
qed

lemma Cls_ascii_intro:
  "i < length s \<Longrightarrow> c (byte_at s i) \<Longrightarrow> byte_at s i < 0x80 \<Longrightarrow> m = i + 1 \<Longrightarrow>
   (m, cs) \<in> set (ms (Cls c) s (i, cs))"
  using step_ascii[of i s] by simp

lemma liti_elim:
  assumes "(m, cm) \<in> set (ms (liti up lo) s (i, cs))"
    "of_char up < (0x80::nat)" "of_char lo < (0x80::nat)"
  shows "m = i + 1 \<and> i < length s \<and> (s ! i = up \<or> s ! i = lo) \<and> cm = cs"
proof -
  have "\<forall>x. (x = of_char up \<or> x = of_char lo) \<longrightarrow> x < (0x80::nat)" using assms(2,3) by auto
  from Cls_ascii_elim[OF assms(1)[unfolded liti_def] this]
  show ?thesis by (auto simp: byte_at_def)
qed

lemma liti_intro:
  assumes "i < length s" "s ! i = up \<or> s ! i = lo"
    "of_char up < (0x80::nat)" "of_char lo < (0x80::nat)" "m = i + 1"
  shows "(m, cs) \<in> set (ms (liti up lo) s (i, cs))"
proof -
  from assms(2,3,4) have "byte_at s i < 0x80" by (auto simp: byte_at_def)
  moreover from assms(2) have "byte_at s i = of_char up \<or> byte_at s i = of_char lo"
    by (auto simp: byte_at_def)
  ultimately show ?thesis unfolding liti_def using assms(1,5) by (intro Cls_ascii_intro) simp_all
qed

lemma cls_colon_space_ascii: "\<forall>x. cls_colon_space x \<longrightarrow> x < 0x80"
  by (auto simp: cls_colon_space_def cls_space_def)

lemma cls_space_ascii: "\<forall>x. cls_space x \<longrightarrow> x < 0x80"
  by (auto simp: cls_space_def)

lemma fin_pre_elim:
  assumes "(gb, c') \<in> set (ms (cats [WordB, liti CHR ''F'' CHR ''f'', liti CHR ''I'' CHR ''i'',
     liti CHR ''N'' CHR ''n'', Cls cls_colon_space, Quest (Cls cls_space)]) s (k, []))"
  shows "fin_keyword_at s k gb"
proof -
  from assms have "(gb, c') \<in> set (ms (Cat WordB (Cat (liti CHR ''F'' CHR ''f'')
     (Cat (liti CHR ''I'' CHR ''i'') (Cat (liti CHR ''N'' CHR ''n'')
     (Cat (Cls cls_colon_space) (Cat (Quest (Cls cls_space)) Eps)))))) s (k, []))" by simp
  then obtain i0 c0 where 0: "(i0, c0) \<in> set (ms WordB s (k, []))"
    and r0: "(gb, c') \<in> set (ms (Cat (liti CHR ''F'' CHR ''f'')
     (Cat (liti CHR ''I'' CHR ''i'') (Cat (liti CHR ''N'' CHR ''n'')
     (Cat (Cls cls_colon_space) (Cat (Quest (Cls cls_space)) Eps))))) s (i0, c0))"
    by (rule ms_Cat_elim)
  from r0 obtain i1 c1 where 1: "(i1, c1) \<in> set (ms (liti CHR ''F'' CHR ''f'') s (i0, c0))"
    and r1: "(gb, c') \<in> set (ms (Cat (liti CHR ''I'' CHR ''i'') (Cat (liti CHR ''N'' CHR ''n'')
     (Cat (Cls cls_colon_space) (Cat (Quest (Cls cls_space)) Eps)))) s (i1, c1))"
    by (rule ms_Cat_elim)
  from r1 obtain i2 c2 where 2: "(i2, c2) \<in> set (ms (liti CHR ''I'' CHR ''i'') s (i1, c1))"
    and r2: "(gb, c') \<in> set (ms (Cat (liti CHR ''N'' CHR ''n'')
     (Cat (Cls cls_colon_space) (Cat (Quest (Cls cls_space)) Eps))) s (i2, c2))"
    by (rule ms_Cat_elim)
  from r2 obtain i3 c3 where 3: "(i3, c3) \<in> set (ms (liti CHR ''N'' CHR ''n'') s (i2, c2))"
    and r3: "(gb, c') \<in> set (ms (Cat (Cls cls_colon_space) (Cat (Quest (Cls cls_space)) Eps))
       s (i3, c3))" by (rule ms_Cat_elim)
  from r3 obtain i4 c4 where 4: "(i4, c4) \<in> set (ms (Cls cls_colon_space) s (i3, c3))"
    and r4: "(gb, c') \<in> set (ms (Cat (Quest (Cls cls_space)) Eps) s (i4, c4))"
    by (rule ms_Cat_elim)
  from r4 have 5: "(gb, c') \<in> set (ms (Quest (Cls cls_space)) s (i4, c4))" by auto
  from 0 have w: "word_boundary s k" "i0 = k" by (auto split: if_splits)
  from liti_elim[OF 1] have l1: "i1 = i0 + 1" "s ! i0 = CHR ''F'' \<or> s ! i0 = CHR ''f''" by simp_all
  from liti_elim[OF 2] have l2: "i2 = i1 + 1" "s ! i1 = CHR ''I'' \<or> s ! i1 = CHR ''i''" by simp_all
  from liti_elim[OF 3] have l3: "i3 = i2 + 1" "s ! i2 = CHR ''N'' \<or> s ! i2 = CHR ''n''" by simp_all
  from Cls_ascii_elim[OF 4 cls_colon_space_ascii]
  have l4: "i4 = i3 + 1" "i3 < length s" "cls_colon_space (byte_at s i3)" by simp_all
  from w l1 l2 l3 l4 have pos: "i1 = k + 1" "i2 = k + 2" "i3 = k + 3" "i4 = k + 4" by simp_all
  from Quest_elim[OF 5] have "gb = k + 4 \<or> (gb = k + 5 \<and> k + 5 \<le> length s \<and> cls_space (byte_at s (k + 4)))"
  proof
    assume "(gb, c') \<in> set (ms (Cls cls_space) s (i4, c4))"
    from Cls_ascii_elim[OF this cls_space_ascii] pos show ?thesis by simp
  next
    assume "(gb, c') = (i4, c4)"
    with pos show ?thesis by simp
  qed
  with w l1 l2 l3 l4 pos show ?thesis by (simp add: fin_keyword_at_def)
qed

lemma fin_pre_intro:
  assumes "fin_keyword_at s k gb"
  shows "(gb, []) \<in> set (ms (cats [WordB, liti CHR ''F'' CHR ''f'', liti CHR ''I'' CHR ''i'',
     liti CHR ''N'' CHR ''n'', Cls cls_colon_space, Quest (Cls cls_space)]) s (k, []))"
proof -
  from assms have w: "word_boundary s k" and len: "k + 4 \<le> length s"
    and f: "s ! k = CHR ''F'' \<or> s ! k = CHR ''f''"
    and i: "s ! (k + 1) = CHR ''I'' \<or> s ! (k + 1) = CHR ''i''"
    and n: "s ! (k + 2) = CHR ''N'' \<or> s ! (k + 2) = CHR ''n''"
    and sep: "cls_colon_space (byte_at s (k + 3))"
    and gb: "gb = k + 4 \<or> (gb = k + 5 \<and> k + 5 \<le> length s \<and> cls_space (byte_at s (k + 4)))"
    by (simp_all add: fin_keyword_at_def)
  from w have 0: "(k, []) \<in> set (ms WordB s (k, []))" by simp
  have 1: "(k + 1, []) \<in> set (ms (liti CHR ''F'' CHR ''f'') s (k, []))"
    using len f by (intro liti_intro) simp_all
  have 2: "(k + 2, []) \<in> set (ms (liti CHR ''I'' CHR ''i'') s (k + 1, []))"
    using len i by (intro liti_intro) simp_all
  have 3: "(k + 3, []) \<in> set (ms (liti CHR ''N'' CHR ''n'') s (k + 2, []))"
    using len n by (intro liti_intro) simp_all
  from sep cls_colon_space_ascii have "byte_at s (k + 3) < 0x80" by blast
  then have 4: "(k + 4, []) \<in> set (ms (Cls cls_colon_space) s (k + 3, []))"
    using len sep by (intro Cls_ascii_intro) simp_all
  have 5: "(gb, []) \<in> set (ms (Quest (Cls cls_space)) s (k + 4, []))"
  proof (cases "gb = k + 4")
    case True
    then show ?thesis by simp
  next
    case False
    with gb have g: "gb = k + 5" "k + 5 \<le> length s" "cls_space (byte_at s (k + 4))" by simp_all
    from g(3) cls_space_ascii have "byte_at s (k + 4) < 0x80" by blast
    then have "(k + 5, []) \<in> set (ms (Cls cls_space) s (k + 4, []))"
      using g by (intro Cls_ascii_intro) simp_all
    with g(1) show ?thesis by simp
  qed
  have e: "(gb, []) \<in> set (ms Eps s (gb, []))" by simp
  have "(gb, []) \<in> set (ms (Cat WordB (Cat (liti CHR ''F'' CHR ''f'')
     (Cat (liti CHR ''I'' CHR ''i'') (Cat (liti CHR ''N'' CHR ''n'')
     (Cat (Cls cls_colon_space) (Cat (Quest (Cls cls_space)) Eps)))))) s (k, []))"
    apply (rule ms_Cat_intro[OF 0])
    apply (rule ms_Cat_intro[OF 1])
    apply (rule ms_Cat_intro[OF 2])
    apply (rule ms_Cat_intro[OF 3])
    apply (rule ms_Cat_intro[OF 4])
    apply (rule ms_Cat_intro[OF 5])
    apply (rule e)
    done
  then show ?thesis by simp
qed

lemma labeled_ms_elim:
  assumes "(e, cs) \<in> set (ms (cats (pre @ [Cap 1 g, WordB])) s (b, []))"
    and pre: "nocap (cats pre)" and g: "nocap g"
  obtains gb where "(gb, []) \<in> set (ms (cats pre) s (b, []))" "(e, []) \<in> set (ms g s (gb, []))"
    "word_boundary s e" "cs = [(1, gb, e)]"
proof -
  from assms(1) have "(e, cs) \<in> set (concat (map (ms (cats [Cap 1 g, WordB]) s) (ms (cats pre) s (b, []))))"
    by (simp only: ms_cats_append)
  from in_concat_map[OF this] obtain u where u: "u \<in> set (ms (cats pre) s (b, []))"
    and e: "(e, cs) \<in> set (ms (cats [Cap 1 g, WordB]) s u)" by blast
  obtain gb cu where ue: "u = (gb, cu)" by (cases u)
  from ms_nocap[OF pre, of gb cu s b "[]"] u ue have cu: "cu = []" by simp
  from e ue cu have "(e, cs) \<in> set (ms (Cat (Cap 1 g) (Cat WordB Eps)) s (gb, []))" by simp
  then obtain m1 c1 where c: "(m1, c1) \<in> set (ms (Cap 1 g) s (gb, []))"
    and w: "(e, cs) \<in> set (ms (Cat WordB Eps) s (m1, c1))" by (rule ms_Cat_elim)
  from c obtain c0 where c1: "c1 = (1, gb, m1) # c0" and gm: "(m1, c0) \<in> set (ms g s (gb, []))"
    by (rule ms_Cap_elim)
  from ms_nocap[OF g gm] have c0: "c0 = []" .
  from w have wb: "word_boundary s m1" "e = m1" "cs = c1" by (auto split: if_splits)
  with u ue cu gm c0 c1 that show ?thesis by simp
qed

lemma in_concat_map_intro:
  "y \<in> set xs \<Longrightarrow> x \<in> set (f y) \<Longrightarrow> x \<in> set (concat (map f xs))"
  by auto

lemma labeled_ms_intro:
  assumes "(gb, []) \<in> set (ms (cats pre) s (b, []))" "(e, []) \<in> set (ms g s (gb, []))"
    "word_boundary s e"
  shows "(e, [(1, gb, e)]) \<in> set (ms (cats (pre @ [Cap 1 g, WordB])) s (b, []))"
proof -
  from assms(2) have "(e, [(1, gb, e)]) \<in> set (ms (Cap 1 g) s (gb, []))" by force
  moreover from assms(3) have "(e, [(1, gb, e)]) \<in> set (ms (Cat WordB Eps) s (e, [(1, gb, e)]))"
    by simp
  ultimately have "(e, [(1, gb, e)]) \<in> set (ms (Cat (Cap 1 g) (Cat WordB Eps)) s (gb, []))"
    by (rule ms_Cat_intro)
  then have x: "(e, [(1, gb, e)]) \<in> set (ms (cats [Cap 1 g, WordB]) s (gb, []))" by simp
  show ?thesis unfolding ms_cats_append
    by (rule in_concat_map_intro[where f = "ms (cats [Cap 1 g, WordB]) s" and y = "(gb, [])"])
       (rule assms(1), rule x)
qed

lemma fin_match_elim:
  assumes "(e, cs) \<in> set (ms reFINLabeled s (k, []))"
  obtains gb where "fin_labeled_at s k gb e" "cs = [(1, gb, e)]"
proof -
  from assms have "(e, cs) \<in> set (ms (cats ([WordB, liti CHR ''F'' CHR ''f'', liti CHR ''I'' CHR ''i'',
     liti CHR ''N'' CHR ''n'', Cls cls_colon_space, Quest (Cls cls_space)]
     @ [Cap 1 (Times 7 (Cls cls_fin_fold)), WordB])) s (k, []))"
    by (simp only: reFINLabeled_split)
  then obtain gb where p: "(gb, []) \<in> set (ms (cats [WordB, liti CHR ''F'' CHR ''f'',
     liti CHR ''I'' CHR ''i'', liti CHR ''N'' CHR ''n'', Cls cls_colon_space,
     Quest (Cls cls_space)]) s (k, []))"
    and c: "(e, []) \<in> set (ms (Times 7 (Cls cls_fin_fold)) s (gb, []))"
    and w: "word_boundary s e" and cs: "cs = [(1, gb, e)]"
    by (rule labeled_ms_elim) (simp_all add: liti_def)
  from Times_Cls_runes[OF c] obtain rs where "runes_span s gb e = Some rs" "length rs = 7"
    "list_all cls_fin_fold rs" by blast
  with fin_pre_elim[OF p] w have "fin_labeled_at s k gb e" by (simp add: fin_labeled_at_def)
  with cs that show ?thesis by blast
qed

lemma fin_code_ms:
  assumes "fin_labeled_at s k gb e"
  shows "(e, []) \<in> set (ms (Times 7 (Cls cls_fin_fold)) s (gb, []))"
proof -
  from assms obtain rs where rs: "runes_span s gb e = Some rs" "length rs = 7"
    "list_all cls_fin_fold rs" by (auto simp: fin_labeled_at_def split: option.splits)
  from runes_Times_Cls[OF rs(1,3), of "[]"] rs(2) show ?thesis by simp
qed

lemma fin_match_intro:
  assumes "fin_labeled_at s k gb e"
  shows "(e, [(1, gb, e)]) \<in> set (ms reFINLabeled s (k, []))"
proof -
  from assms have kw: "fin_keyword_at s k gb" and w: "word_boundary s e"
    by (simp_all add: fin_labeled_at_def)
  from labeled_ms_intro[OF fin_pre_intro[OF kw] fin_code_ms[OF assms] w]
  show ?thesis by (simp only: reFINLabeled_split)
qed

lemma not_fin_fold_space: "cls_space x \<Longrightarrow> \<not> cls_fin_fold x"
  by (auto simp: cls_space_def cls_fin_fold_def cls_fin_def rng_def)

lemma fin_code_start:
  assumes "fin_labeled_at s k gb e"
  shows "gb < e \<and> gb < length s \<and> \<not> cls_space (byte_at s gb)"
proof -
  from assms obtain rs where rs: "runes_span s gb e = Some rs" "length rs = 7"
    "list_all cls_fin_fold rs" by (auto simp: fin_labeled_at_def split: option.splits)
  from rs(2) obtain r rs' where r: "rs = r # rs'" by (cases rs) auto
  from rs(1) r obtain w where st: "step s gb = Some (r, w)" and lt: "gb < e"
    by (auto elim: runes_span_Some_elim)
  from rs(3) r have c: "cls_fin_fold r" by simp
  from step_cases[OF st] have l: "gb < length s" by simp
  have "\<not> cls_space (byte_at s gb)"
  proof
    assume sp: "cls_space (byte_at s gb)"
    with cls_space_ascii have "byte_at s gb < 0x80" by blast
    from step_ascii[OF l this] st have "r = byte_at s gb" by simp
    with sp c not_fin_fold_space show False by blast
  qed
  with lt l show ?thesis by simp
qed

lemma fin_match_unique:
  assumes a: "fin_labeled_at s k gb e" and b: "fin_labeled_at s k gb' e'"
  shows "gb' = gb \<and> e' = e"
proof -
  from a have ka: "gb = k + 4 \<or> (gb = k + 5 \<and> cls_space (byte_at s (k + 4)))"
    by (auto simp: fin_labeled_at_def fin_keyword_at_def)
  from b have kb: "gb' = k + 4 \<or> (gb' = k + 5 \<and> cls_space (byte_at s (k + 4)))"
    by (auto simp: fin_labeled_at_def fin_keyword_at_def)
  from fin_code_start[OF a] have na: "\<not> cls_space (byte_at s gb)" by simp
  from fin_code_start[OF b] have nb: "\<not> cls_space (byte_at s gb')" by simp
  from ka kb na nb have g: "gb' = gb" by auto
  from a obtain rs where rs: "runes_span s gb e = Some rs" "length rs = 7"
    by (auto simp: fin_labeled_at_def split: option.splits)
  from b g obtain rs' where rs': "runes_span s gb e' = Some rs'" "length rs' = 7"
    by (auto simp: fin_labeled_at_def split: option.splits)
  from runes_span_det[OF rs(1) rs'(1)] rs(2) rs'(2) g show ?thesis by simp
qed

lemma fin_match_hd:
  assumes "fin_labeled_at s k gb e"
  shows "\<exists>ts. ms reFINLabeled s (k, []) = (e, [(1, gb, e)]) # ts"
proof -
  from fin_match_intro[OF assms] obtain x ts where l: "ms reFINLabeled s (k, []) = x # ts"
    by (cases "ms reFINLabeled s (k, [])") auto
  obtain e' cs' where x: "x = (e', cs')" by (cases x)
  from l x have "(e', cs') \<in> set (ms reFINLabeled s (k, []))" by simp
  then obtain gb' where s': "fin_labeled_at s k gb' e'" and cs': "cs' = [(1, gb', e')]"
    by (rule fin_match_elim)
  from fin_match_unique[OF assms s'] cs' x l show ?thesis by simp
qed

lemma not_fin_fold_i: "\<not> cls_fin_fold (of_char CHR ''I'')" "\<not> cls_fin_fold (of_char CHR ''i'')"
  by (simp_all add: cls_fin_fold_def cls_fin_def rng_def)

lemma not_sep_f:
  "\<not> cls_colon_space (of_char CHR ''F'')" "\<not> cls_colon_space (of_char CHR ''f'')"
  "\<not> cls_space (of_char CHR ''F'')" "\<not> cls_space (of_char CHR ''f'')"
  by (simp_all add: cls_colon_space_def cls_space_def)

lemma word_fi:
  "is_word_char (of_char CHR ''F'')" "is_word_char (of_char CHR ''f'')"
  "is_word_char (of_char CHR ''I'')" "is_word_char (of_char CHR ''i'')"
  by (simp_all add: is_word_char_def)

lemma fin_no_straddle:
  assumes a: "fin_labeled_at s k gb e" and j: "j < k" and b: "fin_labeled_at s j gb' e'"
  shows "e' \<le> k"
proof (rule ccontr)
  assume "\<not> e' \<le> k"
  then have ke: "k < e'" by simp
  from a have kf: "s ! k = CHR ''F'' \<or> s ! k = CHR ''f''"
    and ki: "s ! (k + 1) = CHR ''I'' \<or> s ! (k + 1) = CHR ''i''"
    and kl: "k + 4 \<le> length s"
    by (simp_all add: fin_labeled_at_def fin_keyword_at_def)
  from b have ji: "s ! (j + 1) = CHR ''I'' \<or> s ! (j + 1) = CHR ''i''"
    and jn: "s ! (j + 2) = CHR ''N'' \<or> s ! (j + 2) = CHR ''n''"
    and js: "cls_colon_space (byte_at s (j + 3))"
    and jg: "gb' = j + 4 \<or> (gb' = j + 5 \<and> cls_space (byte_at s (j + 4)))"
    and jw: "word_boundary s e'"
    by (auto simp: fin_labeled_at_def fin_keyword_at_def)
  have bk: "byte_at s k = of_char CHR ''F'' \<or> byte_at s k = of_char CHR ''f''"
    using kf by (auto simp: byte_at_def)
  have bk1: "byte_at s (k + 1) = of_char CHR ''I'' \<or> byte_at s (k + 1) = of_char CHR ''i''"
    using ki by (auto simp: byte_at_def)
  show False
  proof (cases "k < gb'")
    case True
    with j jg have "k = j + 1 \<or> k = j + 2 \<or> k = j + 3 \<or> (k = j + 4 \<and> cls_space (byte_at s (j + 4)))"
      by auto
    then show False
    proof (elim disjE conjE)
      assume "k = j + 1" with kf ji show False by auto
    next
      assume "k = j + 2" with kf jn show False by auto
    next
      assume "k = j + 3" with bk js not_sep_f show False by auto
    next
      assume "k = j + 4" "cls_space (byte_at s (j + 4))"
      with bk not_sep_f show False by auto
    qed
  next
    case False
    then have ge: "gb' \<le> k + 1" by simp
    show False
    proof (cases "k + 1 < e'")
      case True
      from bk1 have "byte_at s (k + 1) < 0x80" by auto
      from Times_Cls_ascii_bytes[OF fin_code_ms[OF b] ge True this] bk1 not_fin_fold_i
      show False by auto
    next
      case False
      with ke have e': "e' = k + 1" by simp
      from bk word_fi e' kl have "word_before s e'" by (auto simp: word_before_def)
      moreover from bk1 word_fi e' kl have "word_after s e'" by (auto simp: word_after_def)
      ultimately show False using jw by (simp add: word_boundary_def)
    qed
  qed
qed

lemma az_diacritics_boundary:
  assumes "l \<in> set az_diacritics"
  shows "\<not> word_before (pre @ l @ rest) (length (pre @ l))
         \<and> \<not> word_after (pre @ l @ post) (length pre)"
proof -
  from az_diacritics_not_word[OF assms] have ne: "l \<noteq> []"
    and la: "\<not> is_word_char (of_char (last l))" and hd: "\<not> is_word_char (of_char (hd l))"
    by simp_all
  from ne obtain b x where l: "l = b @ [x]" by (cases l rule: rev_cases) simp_all
  have "((pre @ b) @ x # rest) ! length (pre @ b) = x" by (rule nth_append_length)
  with l have "(pre @ l @ rest) ! (length (pre @ l) - 1) = last l" by simp
  with la have 1: "\<not> word_before (pre @ l @ rest) (length (pre @ l))"
    by (simp add: word_before_def byte_at_def)
  from ne have "(pre @ l @ post) ! length pre = hd l"
    by (cases l) simp_all
  with hd have 2: "\<not> word_after (pre @ l @ post) (length pre)"
    by (simp add: word_after_def byte_at_def)
  from 1 2 show ?thesis by simp
qed

section \<open>The word-bounded patterns: where they match\<close>

text \<open>The spec's free-standing span is the pattern's \<open>\b ... \b\<close> around a span that begins and
  ends with an ASCII word character.\<close>

lemma ascii_word_iff: "ascii_word c = is_word_char (of_char c)"
proof -
  have "(c = CHR ''_'') = (of_char c = (0x5F::nat))"
  proof
    assume "c = CHR ''_''" then show "of_char c = (0x5F::nat)" by simp
  next
    assume "of_char c = (0x5F::nat)"
    then have "(of_char c :: nat) = of_char CHR ''_''" by simp
    then show "c = CHR ''_''" by (simp only: of_char_eq_iff)
  qed
  then show ?thesis by (auto simp: ascii_word_def is_word_char_def rng_def)
qed

lemma free_standing_iff:
  "a \<le> length s \<Longrightarrow> free_standing s a b = (\<not> word_before s a \<and> \<not> word_after s b)"
  by (auto simp: free_standing_def word_before_def word_after_def ascii_word_iff byte_at_def)

lemma boundary_free:
  assumes "a < b" "b \<le> length s" "is_word_char (byte_at s a)" "is_word_char (byte_at s (b - 1))"
  shows "(word_boundary s a \<and> word_boundary s b) = free_standing s a b"
proof -
  from assms have wa: "word_after s a" by (simp add: word_after_def)
  from assms have wb: "word_before s b" by (simp add: word_before_def)
  from assms have "a \<le> length s" by simp
  from free_standing_iff[OF this] wa wb show ?thesis by (auto simp: word_boundary_def)
qed

lemma run_at_byte: "run_at c s a n \<Longrightarrow> a \<le> k \<Longrightarrow> k < a + n \<Longrightarrow> c (byte_at s k)"
proof -
  assume r: "run_at c s a n" and k: "a \<le> k" "k < a + n"
  then have "k - a < n" "a + (k - a) = k" by simp_all
  with r show ?thesis unfolding run_at_def by metis
qed

text \<open>The matches that \<open>FindAllStringIndex\<close> returns are the spans where the pattern matches,
  when the matches of the pattern cannot straddle one another.\<close>

lemma FindAll_char:
  assumes el: "\<And>j e cs. j \<le> length s \<Longrightarrow> (e, cs) \<in> set (ms r s (j, [])) \<Longrightarrow> Q j e"
    and intro: "\<And>j e. Q j e \<Longrightarrow> \<exists>cs. (e, cs) \<in> set (ms r s (j, []))"
    and uniq: "\<And>j e e'. Q j e \<Longrightarrow> Q j e' \<Longrightarrow> e' = e"
    and pos: "\<And>j e. Q j e \<Longrightarrow> j < e \<and> ascii_at s j"
    and ns: "\<And>j e j' e'. Q j e \<Longrightarrow> Q j' e' \<Longrightarrow> j' < j \<Longrightarrow> e' \<le> j"
  shows "([int a, int b] \<in> set (FindAllStringIndex r s)) = Q a b"
proof
  assume "[int a, int b] \<in> set (FindAllStringIndex r s)"
  then obtain b' e cs ts where m: "[int a, int b] = [int b', int e]" and l: "b' \<le> length s"
    and h: "ms r s (b', []) = (e, cs) # ts" by (rule FindAllStringIndex_sound)
  from h have "(e, cs) \<in> set (ms r s (b', []))" by simp
  from el[OF l this] m show "Q a b" by simp
next
  assume q: "Q a b"
  from intro[OF q] obtain cs where "(b, cs) \<in> set (ms r s (a, []))" by blast
  then obtain x ts where h: "ms r s (a, []) = x # ts" by (cases "ms r s (a, [])") auto
  obtain e0 c0 where x: "x = (e0, c0)" by (cases x)
  from pos[OF q] have ab: "a < b" and aa: "ascii_at s a" by simp_all
  from aa have al: "a \<le> length s" by (simp add: ascii_at_def)
  from h x have "(e0, c0) \<in> set (ms r s (a, []))" by simp
  from uniq[OF q el[OF al this]] have e0: "e0 = b" .
  with h x have hd: "ms r s (a, []) = (b, c0) # ts" by simp
  have st: "\<forall>j e' cs' ts'. j < a \<and> ms r s (j, []) = (e', cs') # ts' \<longrightarrow> j < e' \<and> e' \<le> a"
  proof (intro allI impI, elim conjE)
    fix j e' cs' ts' assume j: "j < a" and mj: "ms r s (j, []) = (e', cs') # ts'"
    from j al have jl: "j \<le> length s" by simp
    from mj have "(e', cs') \<in> set (ms r s (j, []))" by simp
    from el[OF jl this] have qj: "Q j e'" .
    from pos[OF qj] ns[OF q qj j] show "j < e' \<and> e' \<le> a" by simp
  qed
  from all_matches_complete[OF hd ab aa _ st, of 0 None]
  have "(a, b, c0) \<in> set (all_matches r s 0 None)" by simp
  then show "[int a, int b] \<in> set (FindAllStringIndex r s)"
    by (force simp: FindAllStringIndex_def)
qed


text \<open>A pattern of the form \<open>\b ... \b\<close> matches where its middle part matches between two word
  boundaries.\<close>

lemma concat_map_if_filter:
  "concat (map (\<lambda>u. if P u then [u] else []) xs) = filter P xs"
  by (induction xs) simp_all

lemma cats_snoc_WordB:
  "ms (cats (mid @ [WordB])) s t = filter (\<lambda>u. word_boundary s (fst u)) (ms (cats mid) s t)"
proof -
  have "ms (cats [WordB]) s = (\<lambda>u. if word_boundary s (fst u) then [u] else [])"
  proof (rule ext)
    fix u :: thread
    obtain e cs where u: "u = (e, cs)" by (cases u)
    show "ms (cats [WordB]) s u = (if word_boundary s (fst u) then [u] else [])"
      unfolding u by simp
  qed
  then show ?thesis by (simp only: ms_cats_append concat_map_if_filter)
qed

lemma wrapped_mem:
  "((e, cs) \<in> set (ms (cats (WordB # mid @ [WordB])) s (a, c0)))
   = (word_boundary s a \<and> word_boundary s e \<and> (e, cs) \<in> set (ms (cats mid) s (a, c0)))"
proof -
  have "ms (cats (WordB # mid @ [WordB])) s (a, c0)
        = (if word_boundary s a then ms (cats (mid @ [WordB])) s (a, c0) else [])"
    by simp
  then show ?thesis by (auto simp: cats_snoc_WordB)
qed

text \<open>What the parts of the patterns match: a counted class of ASCII characters, a literal,
  and a part with one way to match followed by the rest of the pattern.\<close>

lemma Times_mem:
  assumes asc: "\<forall>x. c x \<longrightarrow> x < 0x80" and n: "0 < n"
  shows "((e, cs') \<in> set (ms (Times n (Cls c)) s (i, cs))) = (e = i + n \<and> run_at c s i n \<and> cs' = cs)"
proof
  assume m: "(e, cs') \<in> set (ms (Times n (Cls c)) s (i, cs))"
  from Times_Cls_elim[OF m asc] have e: "e = i + n" "\<forall>k<n. c (byte_at s (i + k))" "cs' = cs"
    by simp_all
  from n obtain n' where n': "n = Suc n'" by (cases n) simp_all
  from m n' obtain m1 c1 where "(m1, c1) \<in> set (ms (Cls c) s (i, cs))"
    by (auto elim: ms_Times_Suc_elim)
  from Cls_ascii_elim[OF this asc] have "i \<le> length s" by simp
  with ms_bounds[OF m] have "e \<le> length s" by simp
  with e show "e = i + n \<and> run_at c s i n \<and> cs' = cs" by (simp add: run_at_def)
next
  assume a: "e = i + n \<and> run_at c s i n \<and> cs' = cs"
  then have "i + n \<le> length s" "\<forall>k<n. c (byte_at s (i + k)) \<and> byte_at s (i + k) < 0x80"
    using asc by (auto simp: run_at_def)
  from Times_Cls_intro[OF this, of cs] a show "(e, cs') \<in> set (ms (Times n (Cls c)) s (i, cs))"
    by simp
qed

lemma lit_mem:
  assumes "of_char ch < (0x80::nat)"
  shows "((e, cs') \<in> set (ms (lit ch) s (i, cs)))
         = (e = i + 1 \<and> (i < length s \<and> s ! i = ch) \<and> cs' = cs)"
proof
  assume "(e, cs') \<in> set (ms (lit ch) s (i, cs))"
  from lit_elim[OF this assms] show "e = i + 1 \<and> (i < length s \<and> s ! i = ch) \<and> cs' = cs"
    by simp
next
  assume a: "e = i + 1 \<and> (i < length s \<and> s ! i = ch) \<and> cs' = cs"
  with assms have b: "byte_at s i < 0x80" "byte_at s i = of_char ch" by (simp_all add: byte_at_def)
  from a have i: "i < length s" by simp
  have "(i + 1, cs) \<in> set (ms (Cls (\<lambda>r. r = of_char ch)) s (i, cs))"
    using i b by (intro Cls_ascii_intro) simp_all
  with a show "(e, cs') \<in> set (ms (lit ch) s (i, cs))" by (simp add: lit_def)
qed

lemma Cat_det:
  assumes "\<And>m cm. ((m, cm) \<in> set (ms x s t)) = (m = p \<and> G \<and> cm = c1)" and "p = q"
  shows "((e, cs') \<in> set (ms (Cat x y) s t)) = (G \<and> (e, cs') \<in> set (ms y s (q, c1)))"
  using assms by auto

lemma Eps_mem: "((e, cs') \<in> set (ms Eps s (i, cs))) = (e = i \<and> cs' = cs)"
  by auto

lemma cls_digit_ascii: "\<forall>x. cls_digit x \<longrightarrow> x < 0x80"
  by (auto simp: cls_digit_def rng_def)

lemma cls_upper_ascii: "\<forall>x. cls_upper x \<longrightarrow> x < 0x80"
  by (auto simp: cls_upper_def rng_def)

lemma cls_upper_digit_ascii: "\<forall>x. cls_upper_digit x \<longrightarrow> x < 0x80"
  by (auto simp: cls_upper_digit_def rng_def)

lemma lits2_mem:
  assumes "of_char c1 < (0x80::nat)" "of_char c2 < (0x80::nat)"
  shows "((m, cm) \<in> set (ms (lits [c1, c2]) s (i, cs)))
         = (m = i + 2 \<and> ((i < length s \<and> s ! i = c1) \<and> (i + 1 < length s \<and> s ! (i + 1) = c2))
            \<and> cm = cs)"
proof -
  have 1: "((m, cm) \<in> set (ms (Cat (lit c1) (Cat (lit c2) Eps)) s (i, cs)))
      = ((i < length s \<and> s ! i = c1) \<and> (m, cm) \<in> set (ms (Cat (lit c2) Eps) s (i + 1, cs)))"
    by (rule Cat_det[where p = "i + 1"]) (simp_all add: lit_mem assms)
  have 2: "((m, cm) \<in> set (ms (Cat (lit c2) Eps) s (i + 1, cs)))
      = ((i + 1 < length s \<and> s ! (i + 1) = c2) \<and> (m, cm) \<in> set (ms Eps s (i + 2, cs)))"
    by (rule Cat_det[where p = "i + 1 + 1"]) (simp_all add: lit_mem assms)
  have "lits [c1, c2] = Cat (lit c1) (Cat (lit c2) Eps)" by simp
  then show ?thesis by (simp only: 1 2 Eps_mem) blast
qed

lemma iban_mid_mem:
  "((e, cs) \<in> set (ms (cats [lits ''AZ'', Times 2 (Cls cls_digit), Times 4 (Cls cls_upper),
       Times 20 (Cls cls_upper_digit)]) s (a, [])))
   = (((a < length s \<and> s ! a = CHR ''A'') \<and> (a + 1 < length s \<and> s ! (a + 1) = CHR ''Z''))
      \<and> run_at cls_digit s (a + 2) 2 \<and> run_at cls_upper s (a + 4) 4
      \<and> run_at cls_upper_digit s (a + 8) 20 \<and> e = a + 28 \<and> cs = [])"
proof -
  let ?T20 = "Cat (Times 20 (Cls cls_upper_digit)) Eps"
  let ?T4 = "Cat (Times 4 (Cls cls_upper)) ?T20"
  let ?T2 = "Cat (Times 2 (Cls cls_digit)) ?T4"
  let ?A = "Cat (lits ''AZ'') ?T2"
  have 1: "((e, cs) \<in> set (ms ?A s (a, [])))
      = (((a < length s \<and> s ! a = CHR ''A'') \<and> (a + 1 < length s \<and> s ! (a + 1) = CHR ''Z''))
         \<and> (e, cs) \<in> set (ms ?T2 s (a + 2, [])))"
    by (rule Cat_det[where p = "a + 2"], rule lits2_mem) simp_all
  have 3: "((e, cs) \<in> set (ms ?T2 s (a + 2, [])))
      = (run_at cls_digit s (a + 2) 2 \<and> (e, cs) \<in> set (ms ?T4 s (a + 4, [])))"
    by (rule Cat_det[where p = "a + 2 + 2"], rule Times_mem[OF cls_digit_ascii]) simp_all
  have 4: "((e, cs) \<in> set (ms ?T4 s (a + 4, [])))
      = (run_at cls_upper s (a + 4) 4 \<and> (e, cs) \<in> set (ms ?T20 s (a + 8, [])))"
    by (rule Cat_det[where p = "a + 4 + 4"], rule Times_mem[OF cls_upper_ascii]) simp_all
  have 5: "((e, cs) \<in> set (ms ?T20 s (a + 8, [])))
      = (run_at cls_upper_digit s (a + 8) 20 \<and> (e, cs) \<in> set (ms Eps s (a + 28, [])))"
    by (rule Cat_det[where p = "a + 8 + 20"], rule Times_mem[OF cls_upper_digit_ascii]) simp_all
  show ?thesis by (simp only: cats.simps 1 3 4 5 Eps_mem)
qed

lemma plate_mid_mem:
  "((e, cs) \<in> set (ms (cats [Times 2 (Cls cls_digit), lit CHR ''-'', Times 2 (Cls cls_upper),
       lit CHR ''-'', Times 3 (Cls cls_digit)]) s (a, [])))
   = (run_at cls_digit s a 2 \<and> (a + 2 < length s \<and> s ! (a + 2) = CHR ''-'')
      \<and> run_at cls_upper s (a + 3) 2 \<and> (a + 5 < length s \<and> s ! (a + 5) = CHR ''-'')
      \<and> run_at cls_digit s (a + 6) 3 \<and> e = a + 9 \<and> cs = [])"
proof -
  let ?R5 = "Cat (Times 3 (Cls cls_digit)) Eps"
  let ?R4 = "Cat (lit CHR ''-'') ?R5"
  let ?R3 = "Cat (Times 2 (Cls cls_upper)) ?R4"
  let ?R2 = "Cat (lit CHR ''-'') ?R3"
  let ?R1 = "Cat (Times 2 (Cls cls_digit)) ?R2"
  have 1: "((e, cs) \<in> set (ms ?R1 s (a, [])))
      = (run_at cls_digit s a 2 \<and> (e, cs) \<in> set (ms ?R2 s (a + 2, [])))"
    by (rule Cat_det[where p = "a + 2"], rule Times_mem[OF cls_digit_ascii]) simp_all
  have 2: "((e, cs) \<in> set (ms ?R2 s (a + 2, [])))
      = ((a + 2 < length s \<and> s ! (a + 2) = CHR ''-'') \<and> (e, cs) \<in> set (ms ?R3 s (a + 3, [])))"
    by (rule Cat_det[where p = "a + 2 + 1"], rule lit_mem) simp_all
  have 3: "((e, cs) \<in> set (ms ?R3 s (a + 3, [])))
      = (run_at cls_upper s (a + 3) 2 \<and> (e, cs) \<in> set (ms ?R4 s (a + 5, [])))"
    by (rule Cat_det[where p = "a + 3 + 2"], rule Times_mem[OF cls_upper_ascii]) simp_all
  have 4: "((e, cs) \<in> set (ms ?R4 s (a + 5, [])))
      = ((a + 5 < length s \<and> s ! (a + 5) = CHR ''-'') \<and> (e, cs) \<in> set (ms ?R5 s (a + 6, [])))"
    by (rule Cat_det[where p = "a + 5 + 1"], rule lit_mem) simp_all
  have 5: "((e, cs) \<in> set (ms ?R5 s (a + 6, [])))
      = (run_at cls_digit s (a + 6) 3 \<and> (e, cs) \<in> set (ms Eps s (a + 9, [])))"
    by (rule Cat_det[where p = "a + 6 + 3"], rule Times_mem[OF cls_digit_ascii]) simp_all
  show ?thesis by (simp only: cats.simps 1 2 3 4 5 Eps_mem)
qed

lemma bare_mid_mem:
  assumes "\<forall>x. c x \<longrightarrow> x < 0x80" "0 < n"
  shows "((e, cs) \<in> set (ms (cats [Times n (Cls c)]) s (a, [])))
         = (run_at c s a n \<and> e = a + n \<and> cs = [])"
proof -
  have 1: "((e, cs) \<in> set (ms (Cat (Times n (Cls c)) Eps) s (a, [])))
      = (run_at c s a n \<and> (e, cs) \<in> set (ms Eps s (a + n, [])))"
    by (rule Cat_det[where p = "a + n"], rule Times_mem[OF assms]) simp_all
  show ?thesis by (simp only: cats.simps 1 Eps_mem)
qed


lemma wrapped_char:
  assumes r: "r = cats (WordB # mid @ [WordB])"
    and mid: "\<And>e cs. ((e, cs) \<in> set (ms (cats mid) s (a, []))) = (B \<and> e = a + n \<and> cs = [])"
    and B: "B \<Longrightarrow> 0 < n \<and> a + n \<le> length s \<and> is_word_char (byte_at s a)
                 \<and> is_word_char (byte_at s (a + n - 1))"
  shows "((e, cs) \<in> set (ms r s (a, []))) = (e = a + n \<and> B \<and> free_standing s a e \<and> cs = [])"
proof (cases "B \<and> e = a + n")
  case True
  with B have "a < e" "e \<le> length s" "is_word_char (byte_at s a)"
    "is_word_char (byte_at s (e - 1))" by simp_all
  from boundary_free[OF this] True show ?thesis by (simp only: r wrapped_mem mid) blast
next
  case False
  then show ?thesis by (simp only: r wrapped_mem mid) blast
qed

lemma cls_upper_word: "\<forall>x. cls_upper x \<longrightarrow> is_word_char x"
  by (auto simp: cls_upper_def rng_def is_word_char_def)

lemma cls_upper_digit_word: "\<forall>x. cls_upper_digit x \<longrightarrow> is_word_char x"
  by (auto simp: cls_upper_digit_def rng_def is_word_char_def)

lemma run_at_first: "run_at c s a n \<Longrightarrow> 0 < n \<Longrightarrow> c (byte_at s a)"
  using run_at_byte[of c s a n a] by simp

lemma run_at_last: "run_at c s a n \<Longrightarrow> 0 < n \<Longrightarrow> c (byte_at s (a + n - 1))"
  using run_at_byte[of c s a n "a + n - 1"] by simp

lemma bare_mem:
  assumes cw: "\<forall>x. c x \<longrightarrow> is_word_char x" and n: "0 < n"
  shows "((e, cs) \<in> set (ms (cats [WordB, Times n (Cls c), WordB]) s (a, [])))
         = (e = a + n \<and> run_at c s a n \<and> free_standing s a e \<and> cs = [])"
proof (rule wrapped_char[where mid = "[Times n (Cls c)]"])
  show "cats [WordB, Times n (Cls c), WordB] = cats (WordB # [Times n (Cls c)] @ [WordB])" by simp
next
  have asc: "\<forall>x. c x \<longrightarrow> x < 0x80" using cw is_word_char_ascii by blast
  fix e cs
  show "((e, cs) \<in> set (ms (cats [Times n (Cls c)]) s (a, []))) = (run_at c s a n \<and> e = a + n \<and> cs = [])"
    by (rule bare_mid_mem[OF asc n])
next
  assume r: "run_at c s a n"
  from run_at_first[OF r n] run_at_last[OF r n] cw r n
  show "0 < n \<and> a + n \<le> length s \<and> is_word_char (byte_at s a)
        \<and> is_word_char (byte_at s (a + n - 1))" by (simp add: run_at_def)
qed

lemma iban_mem:
  "((e, cs) \<in> set (ms reIBAN s (a, []))) = (iban_at s a e \<and> cs = [])"
proof -
  let ?B = "((a < length s \<and> s ! a = CHR ''A'') \<and> (a + 1 < length s \<and> s ! (a + 1) = CHR ''Z''))
      \<and> run_at cls_digit s (a + 2) 2 \<and> run_at cls_upper s (a + 4) 4
      \<and> run_at cls_upper_digit s (a + 8) 20"
  have "((e, cs) \<in> set (ms reIBAN s (a, []))) = (e = a + 28 \<and> ?B \<and> free_standing s a e \<and> cs = [])"
  proof (rule wrapped_char[where mid = "[lits ''AZ'', Times 2 (Cls cls_digit), Times 4 (Cls cls_upper),
       Times 20 (Cls cls_upper_digit)]"])
    show "reIBAN = cats (WordB # [lits ''AZ'', Times 2 (Cls cls_digit), Times 4 (Cls cls_upper),
       Times 20 (Cls cls_upper_digit)] @ [WordB])" by (simp add: reIBAN_def)
  next
    fix e cs
    show "((e, cs) \<in> set (ms (cats [lits ''AZ'', Times 2 (Cls cls_digit), Times 4 (Cls cls_upper),
       Times 20 (Cls cls_upper_digit)]) s (a, []))) = (?B \<and> e = a + 28 \<and> cs = [])"
      by (simp only: iban_mid_mem) blast
  next
    assume b: ?B
    then have r: "run_at cls_upper_digit s (a + 8) 20" and a: "s ! a = CHR ''A''" by simp_all
    from run_at_last[OF r] cls_upper_digit_word have "is_word_char (byte_at s (a + 8 + 20 - 1))"
      by simp
    moreover from a have "is_word_char (byte_at s a)" by (simp add: byte_at_def is_word_char_def)
    moreover from r have "a + 28 \<le> length s" by (simp add: run_at_def)
    ultimately show "0 < (28::nat) \<and> a + 28 \<le> length s \<and> is_word_char (byte_at s a)
        \<and> is_word_char (byte_at s (a + 28 - 1))" by simp
  qed
  also have "\<dots> = (iban_at s a e \<and> cs = [])"
    by (auto simp: iban_at_def run_at_def)
  finally show ?thesis .
qed

lemma plate_mem:
  "((e, cs) \<in> set (ms reLicensePlate s (a, []))) = (plate_at s a e \<and> cs = [])"
proof -
  let ?B = "run_at cls_digit s a 2 \<and> (a + 2 < length s \<and> s ! (a + 2) = CHR ''-'')
      \<and> run_at cls_upper s (a + 3) 2 \<and> (a + 5 < length s \<and> s ! (a + 5) = CHR ''-'')
      \<and> run_at cls_digit s (a + 6) 3"
  have "((e, cs) \<in> set (ms reLicensePlate s (a, []))) = (e = a + 9 \<and> ?B \<and> free_standing s a e \<and> cs = [])"
  proof (rule wrapped_char[where mid = "[Times 2 (Cls cls_digit), lit CHR ''-'',
       Times 2 (Cls cls_upper), lit CHR ''-'', Times 3 (Cls cls_digit)]"])
    show "reLicensePlate = cats (WordB # [Times 2 (Cls cls_digit), lit CHR ''-'',
       Times 2 (Cls cls_upper), lit CHR ''-'', Times 3 (Cls cls_digit)] @ [WordB])"
      by (simp add: reLicensePlate_def)
  next
    fix e cs
    show "((e, cs) \<in> set (ms (cats [Times 2 (Cls cls_digit), lit CHR ''-'',
       Times 2 (Cls cls_upper), lit CHR ''-'', Times 3 (Cls cls_digit)]) s (a, [])))
       = (?B \<and> e = a + 9 \<and> cs = [])"
      by (simp only: plate_mid_mem) blast
  next
    assume b: ?B
    then have r: "run_at cls_digit s (a + 6) 3" and r0: "run_at cls_digit s a 2" by simp_all
    from run_at_last[OF r] cls_digit_word have "is_word_char (byte_at s (a + 6 + 3 - 1))" by simp
    moreover from run_at_first[OF r0] cls_digit_word have "is_word_char (byte_at s a)" by simp
    moreover from r have "a + 9 \<le> length s" by (simp add: run_at_def)
    ultimately show "0 < (9::nat) \<and> a + 9 \<le> length s \<and> is_word_char (byte_at s a)
        \<and> is_word_char (byte_at s (a + 9 - 1))" by simp
  qed
  also have "\<dots> = (plate_at s a e \<and> cs = [])"
    by (auto simp: plate_at_def run_at_def)
  finally show ?thesis .
qed


text \<open>No match of these patterns begins inside another one. For a pattern that matches
  only word characters, the byte before the later match would be one.\<close>

lemma word_span_ns:
  assumes all: "\<forall>k. j' \<le> k \<and> k < e' \<longrightarrow> is_word_char (byte_at s k)"
    and j: "j' < j" and fs: "free_standing s j e"
  shows "e' \<le> j"
proof (rule ccontr)
  assume "\<not> e' \<le> j"
  with j have "j' \<le> j - 1 \<and> j - 1 < e'" by arith
  with all have "ascii_word (s ! (j - 1))" by (simp add: ascii_word_iff byte_at_def)
  with fs j show False by (simp add: free_standing_def)
qed

lemma word_start_pos:
  assumes "a < e" "e \<le> length s" "is_word_char (byte_at s a)"
  shows "a < e \<and> ascii_at s a"
  using assms is_word_char_ascii[of "byte_at s a"] by (simp add: ascii_at_def)

lemma run_char:
  assumes cw: "\<forall>x. c x \<longrightarrow> is_word_char x" and n: "0 < n"
  shows "([int a, int b] \<in> set (FindAllStringIndex (cats [WordB, Times n (Cls c), WordB]) s))
         = (b = a + n \<and> run_at c s a n \<and> free_standing s a b)"
proof (rule FindAll_char[where Q = "\<lambda>a b. b = a + n \<and> run_at c s a n \<and> free_standing s a b"])
  fix j e cs
  assume "(e, cs) \<in> set (ms (cats [WordB, Times n (Cls c), WordB]) s (j, []))"
  with bare_mem[OF cw n, of e cs s j] show "e = j + n \<and> run_at c s j n \<and> free_standing s j e"
    by blast
next
  fix j e
  assume "e = j + n \<and> run_at c s j n \<and> free_standing s j e"
  with bare_mem[OF cw n, of e "[]" s j]
  have "(e, []) \<in> set (ms (cats [WordB, Times n (Cls c), WordB]) s (j, []))" by blast
  then show "\<exists>cs. (e, cs) \<in> set (ms (cats [WordB, Times n (Cls c), WordB]) s (j, []))" by blast
next
  fix j e e'
  assume "e = j + n \<and> run_at c s j n \<and> free_standing s j e"
    "e' = j + n \<and> run_at c s j n \<and> free_standing s j e'"
  then show "e' = e" by simp
next
  fix j e
  assume q: "e = j + n \<and> run_at c s j n \<and> free_standing s j e"
  then have r: "run_at c s j n" by simp
  from run_at_first[OF r n] cw have "is_word_char (byte_at s j)" by simp
  moreover from q n have "j < e" by simp
  moreover from q have "e \<le> length s" by (simp add: run_at_def)
  ultimately show "j < e \<and> ascii_at s j" by (intro word_start_pos)
next
  fix j e j' e'
  assume q: "e = j + n \<and> run_at c s j n \<and> free_standing s j e"
    and q': "e' = j' + n \<and> run_at c s j' n \<and> free_standing s j' e'" and lt: "j' < j"
  from q' have r: "run_at c s j' n" and e': "e' = j' + n" by simp_all
  have "\<forall>k. j' \<le> k \<and> k < e' \<longrightarrow> is_word_char (byte_at s k)"
    using run_at_byte[OF r] cw e' by simp
  from word_span_ns[OF this lt] q show "e' \<le> j" by blast
qed

lemma fin_bare_char:
  "([int a, int b] \<in> set (FindAllStringIndex reFINBare s)) = fin_bare_at s a b"
  unfolding reFINBare_def fin_bare_at_def by (rule run_char[OF cls_fin_word]) simp

lemma voen_bare_char:
  "([int a, int b] \<in> set (FindAllStringIndex reVOENBare s)) = voen_bare_at s a b"
  unfolding reVOENBare_def voen_bare_at_def by (rule run_char[OF cls_digit_word]) simp

lemma iban_word:
  assumes "iban_at s a e" "a \<le> k" "k < e"
  shows "is_word_char (byte_at s k)"
proof -
  from assms(1) have A: "s ! a = CHR ''A''" and Z: "s ! (a + 1) = CHR ''Z''"
    and d: "run_at cls_digit s (a + 2) 2" and u: "run_at cls_upper s (a + 4) 4"
    and x: "run_at cls_upper_digit s (a + 8) 20" and e: "e = a + 28"
    by (simp_all add: iban_at_def)
  from assms(2,3) e consider "k = a" | "k = a + 1" | "a + 2 \<le> k \<and> k < a + 2 + 2"
    | "a + 4 \<le> k \<and> k < a + 4 + 4" | "a + 8 \<le> k \<and> k < a + 8 + 20" by fastforce
  then show ?thesis
  proof cases
    case 1
    with A show ?thesis by (simp add: byte_at_def is_word_char_def)
  next
    case 2
    with Z show ?thesis by (simp add: byte_at_def is_word_char_def)
  next
    case 3
    with run_at_byte[OF d, of k] cls_digit_word show ?thesis by simp
  next
    case 4
    with run_at_byte[OF u, of k] cls_upper_word show ?thesis by simp
  next
    case 5
    with run_at_byte[OF x, of k] cls_upper_digit_word show ?thesis by simp
  qed
qed

lemma iban_char:
  "([int a, int b] \<in> set (FindAllStringIndex reIBAN s)) = iban_at s a b"
proof (rule FindAll_char[where Q = "iban_at s"])
  fix j e cs
  assume "(e, cs) \<in> set (ms reIBAN s (j, []))"
  with iban_mem[of e cs s j] show "iban_at s j e" by blast
next
  fix j e
  assume "iban_at s j e"
  with iban_mem[of e "[]" s j] have "(e, []) \<in> set (ms reIBAN s (j, []))" by blast
  then show "\<exists>cs. (e, cs) \<in> set (ms reIBAN s (j, []))" by blast
next
  fix j e e'
  assume "iban_at s j e" "iban_at s j e'"
  then show "e' = e" by (simp add: iban_at_def)
next
  fix j e
  assume q: "iban_at s j e"
  then have "j < e" "e \<le> length s" by (simp_all add: iban_at_def)
  moreover from iban_word[OF q, of j] \<open>j < e\<close> have "is_word_char (byte_at s j)" by simp
  ultimately show "j < e \<and> ascii_at s j" by (intro word_start_pos)
next
  fix j e j' e'
  assume q: "iban_at s j e" and q': "iban_at s j' e'" and lt: "j' < j"
  have "\<forall>k. j' \<le> k \<and> k < e' \<longrightarrow> is_word_char (byte_at s k)" using iban_word[OF q'] by blast
  from q have "free_standing s j e" unfolding iban_at_def by blast
  from word_span_ns[OF \<open>\<forall>k. j' \<le> k \<and> k < e' \<longrightarrow> is_word_char (byte_at s k)\<close> lt this]
  show "e' \<le> j" .
qed


text \<open>A license plate can begin after a hyphen of another one only; then a capital letter or
  a digit stands where the later plate needs a digit or a hyphen.\<close>

lemma not_digit_upper: "cls_digit x \<Longrightarrow> \<not> cls_upper x"
  by (auto simp: cls_digit_def cls_upper_def rng_def)

lemma not_digit_dash: "\<not> cls_digit (of_char CHR ''-'')"
  by (simp add: cls_digit_def rng_def)

lemma free_left_contra:
  "free_standing s a b \<Longrightarrow> 0 < a \<Longrightarrow> is_word_char (byte_at s (a - 1)) \<Longrightarrow> False"
  by (simp add: free_standing_def ascii_word_iff byte_at_def)

lemma free_right_contra:
  "free_standing s a b \<Longrightarrow> b < length s \<Longrightarrow> is_word_char (byte_at s b) \<Longrightarrow> False"
  by (simp add: free_standing_def ascii_word_iff byte_at_def)

lemma plate_ns:
  assumes q: "plate_at s j e" and q': "plate_at s j' e'" and lt: "j' < j"
  shows "e' \<le> j"
proof (rule ccontr)
  assume "\<not> e' \<le> j"
  then have je: "j < e'" by simp
  from q have d: "run_at cls_digit s j 2" and dash: "s ! (j + 2) = CHR ''-''"
    and fs: "free_standing s j e" unfolding plate_at_def by blast+
  from q' have e': "e' = j' + 9" and d1: "run_at cls_digit s j' 2"
    and u: "run_at cls_upper s (j' + 3) 2" and d2: "run_at cls_digit s (j' + 6) 3"
    unfolding plate_at_def by blast+
  from lt have j0: "0 < j" by simp
  have nw: "\<not> is_word_char (byte_at s (j - 1))" using free_left_contra[OF fs j0] by blast
  from lt je e' consider "j' \<le> j - 1 \<and> j - 1 < j' + 2" | "j = j' + 3"
    | "j' + 3 \<le> j - 1 \<and> j - 1 < j' + 3 + 2" | "j = j' + 6"
    | "j' + 6 \<le> j - 1 \<and> j - 1 < j' + 6 + 3" by arith
  then show False
  proof cases
    case 1
    with run_at_byte[OF d1, of "j - 1"] cls_digit_word nw show False by simp
  next
    case 2
    from run_at_first[OF d] have "cls_digit (byte_at s j)" by simp
    moreover from run_at_first[OF u] 2 have "cls_upper (byte_at s j)" by simp
    ultimately show False using not_digit_upper by blast
  next
    case 3
    with run_at_byte[OF u, of "j - 1"] cls_upper_word nw show False by simp
  next
    case 4
    from run_at_byte[OF d2, of "j + 2"] 4 have "cls_digit (byte_at s (j + 2))" by simp
    with dash not_digit_dash show False by (simp add: byte_at_def)
  next
    case 5
    with run_at_byte[OF d2, of "j - 1"] cls_digit_word nw show False by simp
  qed
qed

lemma plate_char:
  "([int a, int b] \<in> set (FindAllStringIndex reLicensePlate s)) = plate_at s a b"
proof (rule FindAll_char[where Q = "plate_at s"])
  fix j e cs
  assume "(e, cs) \<in> set (ms reLicensePlate s (j, []))"
  with plate_mem[of e cs s j] show "plate_at s j e" by blast
next
  fix j e
  assume "plate_at s j e"
  with plate_mem[of e "[]" s j] have "(e, []) \<in> set (ms reLicensePlate s (j, []))" by blast
  then show "\<exists>cs. (e, cs) \<in> set (ms reLicensePlate s (j, []))" by blast
next
  fix j e e'
  assume "plate_at s j e" "plate_at s j e'"
  then show "e' = e" by (simp add: plate_at_def)
next
  fix j e
  assume q: "plate_at s j e"
  then have "j < e" "e \<le> length s" and d: "run_at cls_digit s j 2"
    unfolding plate_at_def by simp_all
  moreover from run_at_first[OF d] cls_digit_word have "is_word_char (byte_at s j)" by simp
  ultimately show "j < e \<and> ascii_at s j" by (intro word_start_pos)
next
  fix j e j' e'
  assume "plate_at s j e" "plate_at s j' e'" "j' < j"
  then show "e' \<le> j" by (rule plate_ns)
qed


text \<open>The local phone pattern: the optional whitespace gives a part with two ways to match,
  and the groups record their offsets.\<close>

lemma Cls_mem:
  assumes "\<forall>x. c x \<longrightarrow> x < 0x80"
  shows "((m, cm) \<in> set (ms (Cls c) s (i, cs)))
         = (m = i + 1 \<and> (i < length s \<and> c (byte_at s i)) \<and> cm = cs)"
proof
  assume "(m, cm) \<in> set (ms (Cls c) s (i, cs))"
  from Cls_ascii_elim[OF this assms] show "m = i + 1 \<and> (i < length s \<and> c (byte_at s i)) \<and> cm = cs"
    by simp
next
  assume a: "m = i + 1 \<and> (i < length s \<and> c (byte_at s i)) \<and> cm = cs"
  with assms have "byte_at s i < 0x80" by blast
  with a have "(i + 1, cs) \<in> set (ms (Cls c) s (i, cs))" by (intro Cls_ascii_intro) simp_all
  with a show "(m, cm) \<in> set (ms (Cls c) s (i, cs))" by simp
qed

lemma Quest_space_mem:
  "((m, cm) \<in> set (ms (Quest (Cls cls_space)) s (i, cs))) = (opt_space s i m \<and> cm = cs)"
proof -
  have "((m, cm) \<in> set (ms (Quest (Cls cls_space)) s (i, cs)))
        = ((m, cm) \<in> set (ms (Cls cls_space) s (i, cs)) \<or> (m, cm) = (i, cs))" by auto
  then show ?thesis by (simp only: Cls_mem[OF cls_space_ascii] opt_space_def) blast
qed

lemma Cap_Times_mem:
  assumes asc: "\<forall>x. c x \<longrightarrow> x < 0x80" and n: "0 < n"
  shows "((m, cm) \<in> set (ms (Cap k (Times n (Cls c))) s (i, cs)))
         = (m = i + n \<and> run_at c s i n \<and> cm = (k, i, i + n) # cs)"
proof
  assume "(m, cm) \<in> set (ms (Cap k (Times n (Cls c))) s (i, cs))"
  then obtain c0 where c0: "cm = (k, i, m) # c0" and t: "(m, c0) \<in> set (ms (Times n (Cls c)) s (i, cs))"
    by (rule ms_Cap_elim)
  from t Times_mem[OF asc n, of m c0 s i cs] have "m = i + n \<and> run_at c s i n \<and> c0 = cs" by blast
  with c0 show "m = i + n \<and> run_at c s i n \<and> cm = (k, i, i + n) # cs" by simp
next
  assume a: "m = i + n \<and> run_at c s i n \<and> cm = (k, i, i + n) # cs"
  with Times_mem[OF asc n, of m cs s i cs] have "(m, cs) \<in> set (ms (Times n (Cls c)) s (i, cs))"
    by blast
  then have "(m, (k, i, m) # cs) \<in> set (ms (Cap k (Times n (Cls c))) s (i, cs))" by force
  with a show "(m, cm) \<in> set (ms (Cap k (Times n (Cls c))) s (i, cs))" by simp
qed

lemma Cat_opt:
  assumes "\<And>m cm. ((m, cm) \<in> set (ms x s t)) = (R m \<and> cm = c1)"
  shows "((e, cs') \<in> set (ms (Cat x y) s t)) = (\<exists>m. R m \<and> (e, cs') \<in> set (ms y s (m, c1)))"
  using assms by auto

lemma phone_mid_mem:
  "((e, cs) \<in> set (ms (cats [lit CHR ''0'', Cap 1 (Times 2 (Cls cls_digit)),
       Quest (Cls cls_space), Cap 2 (Times 3 (Cls cls_digit)),
       Quest (Cls cls_space), Cap 3 (Times 2 (Cls cls_digit)),
       Quest (Cls cls_space), Cap 4 (Times 2 (Cls cls_digit))]) s (a, [])))
   = ((a < length s \<and> s ! a = CHR ''0'') \<and> run_at cls_digit s (a + 1) 2
      \<and> (\<exists>p1. opt_space s (a + 3) p1 \<and> run_at cls_digit s p1 3
      \<and> (\<exists>p2. opt_space s (p1 + 3) p2 \<and> run_at cls_digit s p2 2
      \<and> (\<exists>p3. opt_space s (p2 + 2) p3 \<and> run_at cls_digit s p3 2 \<and> e = p3 + 2
           \<and> cs = [(4, p3, p3 + 2), (3, p2, p2 + 2), (2, p1, p1 + 3), (1, a + 1, a + 1 + 2)]))))"
proof -
  let ?D = "Cls cls_digit"
  let ?Q = "Quest (Cls cls_space)"
  let ?R8 = "Cat (Cap 4 (Times 2 ?D)) Eps"
  let ?R7 = "Cat ?Q ?R8"
  let ?R6 = "Cat (Cap 3 (Times 2 ?D)) ?R7"
  let ?R5 = "Cat ?Q ?R6"
  let ?R4 = "Cat (Cap 2 (Times 3 ?D)) ?R5"
  let ?R3 = "Cat ?Q ?R4"
  let ?R2 = "Cat (Cap 1 (Times 2 ?D)) ?R3"
  let ?R1 = "Cat (lit CHR ''0'') ?R2"
  have 8: "\<And>i c. ((e, cs) \<in> set (ms ?R8 s (i, c)))
      = (run_at cls_digit s i 2 \<and> (e, cs) \<in> set (ms Eps s (i + 2, (4, i, i + 2) # c)))"
    by (rule Cat_det[where p = "i + 2" for i], rule Cap_Times_mem[OF cls_digit_ascii]) simp_all
  have 7: "\<And>i c. ((e, cs) \<in> set (ms ?R7 s (i, c)))
      = (\<exists>m. opt_space s i m \<and> (e, cs) \<in> set (ms ?R8 s (m, c)))"
    by (rule Cat_opt, rule Quest_space_mem)
  have 6: "\<And>i c. ((e, cs) \<in> set (ms ?R6 s (i, c)))
      = (run_at cls_digit s i 2 \<and> (e, cs) \<in> set (ms ?R7 s (i + 2, (3, i, i + 2) # c)))"
    by (rule Cat_det[where p = "i + 2" for i], rule Cap_Times_mem[OF cls_digit_ascii]) simp_all
  have 5: "\<And>i c. ((e, cs) \<in> set (ms ?R5 s (i, c)))
      = (\<exists>m. opt_space s i m \<and> (e, cs) \<in> set (ms ?R6 s (m, c)))"
    by (rule Cat_opt, rule Quest_space_mem)
  have 4: "\<And>i c. ((e, cs) \<in> set (ms ?R4 s (i, c)))
      = (run_at cls_digit s i 3 \<and> (e, cs) \<in> set (ms ?R5 s (i + 3, (2, i, i + 3) # c)))"
    by (rule Cat_det[where p = "i + 3" for i], rule Cap_Times_mem[OF cls_digit_ascii]) simp_all
  have 3: "\<And>i c. ((e, cs) \<in> set (ms ?R3 s (i, c)))
      = (\<exists>m. opt_space s i m \<and> (e, cs) \<in> set (ms ?R4 s (m, c)))"
    by (rule Cat_opt, rule Quest_space_mem)
  have 2: "((e, cs) \<in> set (ms ?R2 s (a + 1, [])))
      = (run_at cls_digit s (a + 1) 2 \<and> (e, cs) \<in> set (ms ?R3 s (a + 3, [(1, a + 1, a + 1 + 2)])))"
    by (rule Cat_det[where p = "a + 1 + 2"], rule Cap_Times_mem[OF cls_digit_ascii]) simp_all
  have 1: "((e, cs) \<in> set (ms ?R1 s (a, [])))
      = ((a < length s \<and> s ! a = CHR ''0'') \<and> (e, cs) \<in> set (ms ?R2 s (a + 1, [])))"
    by (rule Cat_det[where p = "a + 1"], rule lit_mem) simp_all
  show ?thesis by (simp only: cats.simps 1 2 3 4 5 6 7 8 Eps_mem)
qed


lemma phone_local_at_iff:
  "phone_local_at s a b =
     (a < length s \<and> s ! a = CHR ''0'' \<and> run_at cls_digit s (a + 1) 2
      \<and> (\<exists>p1 p2 p3. opt_space s (a + 3) p1 \<and> run_at cls_digit s p1 3
            \<and> opt_space s (p1 + 3) p2 \<and> run_at cls_digit s p2 2
            \<and> opt_space s (p2 + 2) p3 \<and> run_at cls_digit s p3 2 \<and> b = p3 + 2)
      \<and> free_standing s a b)"
proof
  assume "phone_local_at s a b"
  then show "a < length s \<and> s ! a = CHR ''0'' \<and> run_at cls_digit s (a + 1) 2
      \<and> (\<exists>p1 p2 p3. opt_space s (a + 3) p1 \<and> run_at cls_digit s p1 3
            \<and> opt_space s (p1 + 3) p2 \<and> run_at cls_digit s p2 2
            \<and> opt_space s (p2 + 2) p3 \<and> run_at cls_digit s p3 2 \<and> b = p3 + 2)
      \<and> free_standing s a b"
    unfolding phone_local_at_def by blast
next
  assume r: "a < length s \<and> s ! a = CHR ''0'' \<and> run_at cls_digit s (a + 1) 2
      \<and> (\<exists>p1 p2 p3. opt_space s (a + 3) p1 \<and> run_at cls_digit s p1 3
            \<and> opt_space s (p1 + 3) p2 \<and> run_at cls_digit s p2 2
            \<and> opt_space s (p2 + 2) p3 \<and> run_at cls_digit s p3 2 \<and> b = p3 + 2)
      \<and> free_standing s a b"
  then obtain p1 p2 p3 where p: "opt_space s (a + 3) p1" "run_at cls_digit s p1 3"
    "opt_space s (p1 + 3) p2" "run_at cls_digit s p2 2"
    "opt_space s (p2 + 2) p3" "run_at cls_digit s p3 2" "b = p3 + 2" by blast
  from p(1,3,5) have "p1 \<in> {a + 3, a + 4}" "p2 \<in> {p1 + 3, p1 + 4}" "p3 \<in> {p2 + 2, p2 + 3}"
    by (auto simp: opt_space_def)
  with r p show "phone_local_at s a b" unfolding phone_local_at_def by blast
qed

lemma phone_mem:
  "(\<exists>cs. (e, cs) \<in> set (ms rePhoneLocal s (a, []))) = phone_local_at s a e"
proof -
  let ?mid = "[lit CHR ''0'', Cap 1 (Times 2 (Cls cls_digit)),
       Quest (Cls cls_space), Cap 2 (Times 3 (Cls cls_digit)),
       Quest (Cls cls_space), Cap 3 (Times 2 (Cls cls_digit)),
       Quest (Cls cls_space), Cap 4 (Times 2 (Cls cls_digit))]"
  let ?body = "a < length s \<and> s ! a = CHR ''0'' \<and> run_at cls_digit s (a + 1) 2
      \<and> (\<exists>p1 p2 p3. opt_space s (a + 3) p1 \<and> run_at cls_digit s p1 3
            \<and> opt_space s (p1 + 3) p2 \<and> run_at cls_digit s p2 2
            \<and> opt_space s (p2 + 2) p3 \<and> run_at cls_digit s p3 2 \<and> e = p3 + 2)"
  have r: "rePhoneLocal = cats (WordB # ?mid @ [WordB])" by (simp add: rePhoneLocal_def)
  have mid: "(\<exists>cs. (e, cs) \<in> set (ms (cats ?mid) s (a, []))) = ?body"
    by (simp only: phone_mid_mem) blast
  have wb: "?body \<Longrightarrow> (word_boundary s a \<and> word_boundary s e) = free_standing s a e"
  proof -
    assume b: ?body
    then obtain p3 where l: "run_at cls_digit s p3 2" and e: "e = p3 + 2" and a: "s ! a = CHR ''0''"
      and r0: "run_at cls_digit s (a + 1) 2" by blast
    from b obtain p1 p2 p3' where o: "opt_space s (a + 3) p1" "opt_space s (p1 + 3) p2"
      "opt_space s (p2 + 2) p3'" "e = p3' + 2" by blast
    from o have "a < e" by (auto simp: opt_space_def)
    moreover from l e have "e \<le> length s" by (simp add: run_at_def)
    moreover from a have "is_word_char (byte_at s a)" by (simp add: byte_at_def is_word_char_def)
    moreover from run_at_last[OF l] cls_digit_word e have "is_word_char (byte_at s (e - 1))" by simp
    ultimately show ?thesis by (rule boundary_free)
  qed
  have "(\<exists>cs. (e, cs) \<in> set (ms rePhoneLocal s (a, [])))
        = (word_boundary s a \<and> word_boundary s e \<and> (\<exists>cs. (e, cs) \<in> set (ms (cats ?mid) s (a, []))))"
    by (simp only: r wrapped_mem) blast
  also have "\<dots> = (word_boundary s a \<and> word_boundary s e \<and> ?body)" by (simp only: mid)
  also have "\<dots> = (?body \<and> free_standing s a e)" using wb by blast
  also have "\<dots> = phone_local_at s a e" by (simp only: phone_local_at_iff) blast
  finally show ?thesis .
qed

lemma not_digit_space: "cls_digit x \<Longrightarrow> \<not> cls_space x"
  by (auto simp: cls_digit_def cls_space_def rng_def)

lemma opt_space_digit: "opt_space s p q \<Longrightarrow> cls_digit (byte_at s p) \<Longrightarrow> q = p"
  using not_digit_space by (auto simp: opt_space_def)

lemma opt_space_det:
  assumes "opt_space s p q" "run_at cls_digit s q n" "opt_space s p q'" "run_at cls_digit s q' n'"
    "0 < n" "0 < n'"
  shows "q' = q"
proof -
  from run_at_first[OF assms(2,5)] have d: "cls_digit (byte_at s q)" .
  from run_at_first[OF assms(4,6)] have d': "cls_digit (byte_at s q')" .
  from assms(1) have "q = p \<or> (q = p + 1 \<and> cls_space (byte_at s p))" by (auto simp: opt_space_def)
  moreover from assms(3) have "q' = p \<or> (q' = p + 1 \<and> cls_space (byte_at s p))"
    by (auto simp: opt_space_def)
  ultimately show ?thesis using d d' not_digit_space by auto
qed

lemma phone_uniq:
  assumes "phone_local_at s a e" "phone_local_at s a e'"
  shows "e' = e"
proof -
  from assms(1) obtain p1 p2 p3 where p: "opt_space s (a + 3) p1" "run_at cls_digit s p1 3"
    "opt_space s (p1 + 3) p2" "run_at cls_digit s p2 2"
    "opt_space s (p2 + 2) p3" "run_at cls_digit s p3 2" "e = p3 + 2"
    unfolding phone_local_at_iff by blast
  from assms(2) obtain q1 q2 q3 where q: "opt_space s (a + 3) q1" "run_at cls_digit s q1 3"
    "opt_space s (q1 + 3) q2" "run_at cls_digit s q2 2"
    "opt_space s (q2 + 2) q3" "run_at cls_digit s q3 2" "e' = q3 + 2"
    unfolding phone_local_at_iff by blast
  from opt_space_det[OF p(1,2) q(1,2)] have 1: "q1 = p1" by simp
  from opt_space_det[OF p(3,4) q(3,4)[unfolded 1]] have 2: "q2 = p2" by simp
  from opt_space_det[OF p(5,6) q(5,6)[unfolded 2]] have 3: "q3 = p3" by simp
  from 3 p(7) q(7) show ?thesis by simp
qed


lemma digit_word_at: "run_at cls_digit s a n \<Longrightarrow> a \<le> k \<Longrightarrow> k < a + n \<Longrightarrow> is_word_char (byte_at s k)"
  using run_at_byte[of cls_digit s a n k] cls_digit_word by simp

text \<open>A local phone number cannot begin inside another one: it would have to begin right
  after one of the optional whitespace bytes, and then the digits left over are too few.\<close>

lemma phone_ns:
  assumes q: "phone_local_at s j e" and q': "phone_local_at s j' e'" and lt: "j' < j"
  shows "e' \<le> j"
proof (rule ccontr)
  assume "\<not> e' \<le> j"
  then have je: "j < e'" by simp
  from q' obtain p1 p2 p3 where z': "s ! j' = CHR ''0''" and r0': "run_at cls_digit s (j' + 1) 2"
    and o1': "opt_space s (j' + 3) p1" and r1': "run_at cls_digit s p1 3"
    and o2': "opt_space s (p1 + 3) p2" and r2': "run_at cls_digit s p2 2"
    and o3': "opt_space s (p2 + 2) p3" and r3': "run_at cls_digit s p3 2"
    and e': "e' = p3 + 2" and fs': "free_standing s j' e'"
    unfolding phone_local_at_iff by blast
  from q obtain q1 q2 where r0: "run_at cls_digit s (j + 1) 2"
    and o1: "opt_space s (j + 3) q1" and r1: "run_at cls_digit s q1 3"
    and o2: "opt_space s (q1 + 3) q2" and r2: "run_at cls_digit s q2 2"
    and fs: "free_standing s j e"
    unfolding phone_local_at_iff by blast
  from lt have j0: "0 < j" by simp
  have nw: "\<not> is_word_char (byte_at s (j - 1))" using free_left_contra[OF fs j0] by blast
  from o1' have P1: "p1 = j' + 3 \<or> p1 = j' + 4" by (auto simp: opt_space_def)
  from o2' have P2: "p2 = p1 + 3 \<or> p2 = p1 + 4" by (auto simp: opt_space_def)
  from o3' have P3: "p3 = p2 + 2 \<or> p3 = p2 + 3" by (auto simp: opt_space_def)
  have "j - 1 \<noteq> j'" using z' nw by (auto simp: byte_at_def is_word_char_def)
  moreover have "\<not> (j' + 1 \<le> j - 1 \<and> j - 1 < j' + 1 + 2)" using digit_word_at[OF r0'] nw by blast
  moreover have "\<not> (p1 \<le> j - 1 \<and> j - 1 < p1 + 3)" using digit_word_at[OF r1'] nw by blast
  moreover have "\<not> (p2 \<le> j - 1 \<and> j - 1 < p2 + 2)" using digit_word_at[OF r2'] nw by blast
  moreover have "\<not> (p3 \<le> j - 1 \<and> j - 1 < p3 + 2)" using digit_word_at[OF r3'] nw by blast
  ultimately consider "j = p1" | "j = p2" | "j = p3" using lt je e' P1 P2 P3 by arith
  then show False
  proof cases
    case 3
    from r0 have "j + 2 < length s" by (simp add: run_at_def)
    moreover from digit_word_at[OF r0, of "j + 2"] have "is_word_char (byte_at s (j + 2))" by simp
    moreover from 3 e' have "e' = j + 2" by simp
    ultimately show False using free_right_contra[OF fs'] by simp
  next
    case 2
    from run_at_byte[OF r0, of "j + 2"] have "cls_digit (byte_at s (j + 2))" by simp
    with opt_space_digit[OF o3'] 2 have p3: "p3 = j + 2" by simp
    from run_at_byte[OF r3', of "j + 3"] p3 have "cls_digit (byte_at s (j + 3))" by simp
    from opt_space_digit[OF o1 this] have q1: "q1 = j + 3" .
    from r1 q1 have "j + 4 < length s" by (simp add: run_at_def)
    moreover from digit_word_at[OF r1, of "j + 4"] q1 have "is_word_char (byte_at s (j + 4))" by simp
    moreover from p3 e' have "e' = j + 4" by simp
    ultimately show False using free_right_contra[OF fs'] by simp
  next
    case 1
    from opt_space_det[OF o2'[unfolded 1[symmetric]] r2' o1 r1] have q1: "q1 = p2" by simp
    from run_at_byte[OF r1, of "p2 + 2"] q1 have "cls_digit (byte_at s (p2 + 2))" by simp
    from opt_space_digit[OF o3' this] have p3: "p3 = p2 + 2" .
    from run_at_byte[OF r3', of "p2 + 3"] p3 have "cls_digit (byte_at s (p2 + 3))" by simp
    with opt_space_digit[OF o2] q1 have q2: "q2 = p2 + 3" by simp
    from r2 q2 have "p2 + 4 < length s" by (simp add: run_at_def)
    moreover from digit_word_at[OF r2, of "p2 + 4"] q2 have "is_word_char (byte_at s (p2 + 4))" by simp
    moreover from p3 e' have "e' = p2 + 4" by simp
    ultimately show False using free_right_contra[OF fs'] by simp
  qed
qed

lemma phone_char:
  "([int a, int b] \<in> set (FindAllStringIndex rePhoneLocal s)) = phone_local_at s a b"
proof (rule FindAll_char[where Q = "phone_local_at s"])
  fix j e cs
  assume "(e, cs) \<in> set (ms rePhoneLocal s (j, []))"
  with phone_mem[of e s j] show "phone_local_at s j e" by blast
next
  fix j e
  assume "phone_local_at s j e"
  with phone_mem[of e s j] show "\<exists>cs. (e, cs) \<in> set (ms rePhoneLocal s (j, []))" by blast
next
  fix j e e'
  assume "phone_local_at s j e" "phone_local_at s j e'"
  then show "e' = e" by (rule phone_uniq)
next
  fix j e
  assume q: "phone_local_at s j e"
  then obtain p1 p2 p3 where z: "s ! j = CHR ''0''"
    and o: "opt_space s (j + 3) p1" "opt_space s (p1 + 3) p2" "opt_space s (p2 + 2) p3"
    and r: "run_at cls_digit s p3 2" and e: "e = p3 + 2"
    unfolding phone_local_at_iff by blast
  from o e have "j < e" by (auto simp: opt_space_def)
  moreover from r e have "e \<le> length s" by (simp add: run_at_def)
  moreover from z have "is_word_char (byte_at s j)" by (simp add: byte_at_def is_word_char_def)
  ultimately show "j < e \<and> ascii_at s j" by (intro word_start_pos)
next
  fix j e j' e'
  assume "phone_local_at s j e" "phone_local_at s j' e'" "j' < j"
  then show "e' \<le> j" by (rule phone_ns)
qed


lemma az_free_standing:
  assumes "l1 \<in> set az_diacritics" "l2 \<in> set az_diacritics"
  shows "free_standing (pre @ l1 @ w @ l2 @ post) (length (pre @ l1)) (length (pre @ l1 @ w))"
    and "free_standing (pre @ l1 @ w) (length (pre @ l1)) (length (pre @ l1 @ w))"
    and "free_standing (w @ l2 @ post) 0 (length w)"
proof -
  from az_diacritics_boundary[OF assms(1), of pre "w @ l2 @ post"]
  have 1: "\<not> word_before (pre @ l1 @ w @ l2 @ post) (length (pre @ l1))" by simp
  from az_diacritics_boundary[OF assms(1), of pre w]
  have 2: "\<not> word_before (pre @ l1 @ w) (length (pre @ l1))" by simp
  from az_diacritics_boundary[OF assms(2), where pre = "pre @ l1 @ w" and post = post]
  have 3: "\<not> word_after (pre @ l1 @ w @ l2 @ post) (length (pre @ l1 @ w))" by simp
  from az_diacritics_boundary[OF assms(2), where pre = w and post = post]
  have 4: "\<not> word_after (w @ l2 @ post) (length w)" by simp
  have l: "length (pre @ l1) \<le> length (pre @ l1 @ w @ l2 @ post)"
    "length (pre @ l1) \<le> length (pre @ l1 @ w)" by simp_all
  from 1 3 show "free_standing (pre @ l1 @ w @ l2 @ post) (length (pre @ l1)) (length (pre @ l1 @ w))"
    by (simp only: free_standing_iff[OF l(1)]) simp
  from 2 show "free_standing (pre @ l1 @ w) (length (pre @ l1)) (length (pre @ l1 @ w))"
    by (simp only: free_standing_iff[OF l(2)]) (simp add: word_after_def)
  from 4 show "free_standing (w @ l2 @ post) 0 (length w)"
    by (simp add: free_standing_iff word_before_def)
qed

text \<open>The entities a matcher makes of a pattern's matches.\<close>

lemma entity_char:
  assumes char: "\<And>a b. ([int a, int b] \<in> set (FindAllStringIndex r s)) = Q a b"
  shows "(x \<in> set (map (entity_of s ty) (FindAllStringIndex r s)))
         = (\<exists>a b. Q a b \<and> x = entity_of s ty [int a, int b])"
proof
  assume "x \<in> set (map (entity_of s ty) (FindAllStringIndex r s))"
  then obtain m where m: "m \<in> set (FindAllStringIndex r s)" and xe: "x = entity_of s ty m"
    by auto
  from m obtain a b where ab: "m = [int a, int b]" by (auto elim: FindAllStringIndex_sound)
  from m ab char have "Q a b" by simp
  with xe ab show "\<exists>a b. Q a b \<and> x = entity_of s ty [int a, int b]" by blast
next
  assume "\<exists>a b. Q a b \<and> x = entity_of s ty [int a, int b]"
  then obtain a b where q: "Q a b" and xe: "x = entity_of s ty [int a, int b]" by blast
  from q char have "[int a, int b] \<in> set (FindAllStringIndex r s)" by simp
  with xe show "x \<in> set (map (entity_of s ty) (FindAllStringIndex r s))" by simp
qed

lemma unlabeled_entity:
  "(x \<in> set (map (labeled_entity_of s ty) subs @ map (entity_of s ty) idx) \<and> \<not> Labeled x)
   = (x \<in> set (map (entity_of s ty) idx))"
  by (auto simp: labeled_entity_of_def entity_of_def)

section \<open>The claims\<close>

text \<open>
  C1. For every input string, the list returned by \<open>recognize\<close> contains no two entities whose
  ranges \<open>[start, end)\<close> intersect, and the list is sorted by \<open>start\<close> ascending. This holds
  for every sorting function that keeps the promise of \<open>sort.Slice\<close>.
\<close>

theorem recognize_disjoint_sorted:
  assumes "sorts srt"
  shows "sorted_wrt (\<lambda>a b. \<not> intersects a b) (recognize srt s)
         \<and> sorted_wrt (\<lambda>a b. Start a \<le> Start b) (recognize srt s)"
proof (cases "candidates s = []")
  case True
  then show ?thesis by (simp add: recognize_eq[OF assms])
next
  case False
  let ?r = "resolveOverlaps srt (candidates s)"
  have ok: "\<forall>e \<in> set (candidates s). Start e < End e"
    using candidates_ok by (auto simp: cand_ok_def)
  then have "\<forall>e \<in> set (candidates s). Start e \<le> End e" by auto
  from resolveOverlaps_chain[OF assms this]
  have chain: "sorted_wrt (\<lambda>a b. End a \<le> Start b) ?r" .
  have lt: "\<forall>e \<in> set ?r. Start e < End e" using ok resolveOverlaps_subset[OF assms] by blast
  with chain have both: "sorted_wrt (\<lambda>a b. Start a < End a \<and> End a \<le> Start b) ?r"
    by (rule chain_strict)
  have 1: "sorted_wrt (\<lambda>a b. \<not> intersects a b) ?r"
    by (rule sorted_wrt_mono_rel[OF _ chain]) (auto simp: intersects_def)
  have 2: "sorted_wrt (\<lambda>a b. Start a \<le> Start b) ?r"
    by (rule sorted_wrt_mono_rel[OF _ both]) auto
  from 1 2 False show ?thesis by (simp add: recognize_eq[OF assms])
qed

theorem recognize_disjoint_sorted_witness:
  "sorts (insertionSort :: (Entity \<Rightarrow> Entity \<Rightarrow> bool) \<Rightarrow> Entity list \<Rightarrow> Entity list)
   \<and> length (recognize insertionSort ''FIN: 5ARPXK2, tel +994501234567'') = 2
   \<and> sorted_wrt (\<lambda>a b. \<not> intersects a b)
         (recognize insertionSort ''FIN: 5ARPXK2, tel +994501234567'')
   \<and> sorted_wrt (\<lambda>a b. Start a \<le> Start b)
         (recognize insertionSort ''FIN: 5ARPXK2, tel +994501234567'')"
proof -
  have n: "length (recognize insertionSort ''FIN: 5ARPXK2, tel +994501234567'') = 2"
    by code_simp
  from recognize_disjoint_sorted[OF insertionSort_sorts, of "''FIN: 5ARPXK2, tel +994501234567''"]
    n insertionSort_sorts
  show ?thesis by blast
qed

text \<open>
  C2. For every input string and every entity \<open>e\<close> in the result of \<open>recognize\<close>, the bytes
  \<open>input[e.start:e.end]\<close> are \<open>e.text\<close> and \<open>e.start < e.end\<close>; the offsets lie in the input,
  so the slice expression is defined. URL entities, whose text was trimmed, are among them.
\<close>

theorem recognize_text_is_slice:
  assumes "sorts srt" "e \<in> set (recognize srt s)"
  shows "slice s (Start e) (End e) = Text e \<and> Start e < End e
         \<and> 0 \<le> Start e \<and> End e \<le> int (length s)"
proof -
  from assms recognize_subset[OF assms(1)] have "e \<in> set (candidates s)" by blast
  from candidates_ok[OF this] show ?thesis by (simp add: cand_ok_def)
qed

theorem recognize_text_is_slice_witness:
  "sorts (insertionSort :: (Entity \<Rightarrow> Entity \<Rightarrow> bool) \<Rightarrow> Entity list \<Rightarrow> Entity list)
   \<and> \<lparr>Text = ''http://a.b/c'', Start = 4, End = 16, Type = URL, Labeled = False\<rparr>
         \<in> set (recognize insertionSort ''see http://a.b/c.'')
   \<and> slice ''see http://a.b/c.'' 4 16 = ''http://a.b/c'' \<and> (4::int) < 16
   \<and> (0::int) \<le> 4 \<and> (16::int) \<le> int (length ''see http://a.b/c.'')"
proof -
  let ?e = "\<lparr>Text = ''http://a.b/c'', Start = 4, End = 16, Type = URL, Labeled = False\<rparr>"
  have m: "?e \<in> set (recognize insertionSort ''see http://a.b/c.'')"
    by code_simp
  from recognize_text_is_slice[OF insertionSort_sorts m] m insertionSort_sorts
  show ?thesis by simp
qed

text \<open>
  C3. The overlap resolver, applied to any candidate list (of entities whose offsets are
  non-negative values of Go's \<open>int\<close>), first orders the candidates by start ascending, then
  span length descending, then labeled before unlabeled: the ranked list is a permutation
  of the candidates in which no entity stands after one that the spec's order puts behind
  it. Then it sweeps once from left to right with \<open>maxEnd\<close> initially 0 and commits a
  candidate exactly when its start is at least \<open>maxEnd\<close>, which becomes its end; every
  other candidate is dropped, also one that ends beyond \<open>maxEnd\<close>, and nothing committed
  is revised: that is \<open>spec_sweep\<close>, which the three-branch loop of the source equals.
\<close>

theorem resolveOverlaps_rank_and_sweep:
  assumes "sorts srt" "\<forall>e \<in> set es. offsets_ok e"
  shows "mset (srt less_overlap es) = mset es
         \<and> sorted_wrt (\<lambda>a b. \<not> spec_before b a) (srt less_overlap es)
         \<and> resolveOverlaps srt es = spec_sweep (srt less_overlap es) 0"
proof -
  let ?ranked = "srt less_overlap es"
  have m: "mset ?ranked = mset es" by (rule sorts_mset[OF assms(1) strict_weak_less_overlap])
  then have st: "set ?ranked = set es" by (metis set_mset_mset)
  have "sorted_wrt (\<lambda>a b. \<not> less_overlap b a) ?ranked"
    by (rule sorts_sorted[OF assms(1) strict_weak_less_overlap])
  then have "sorted_wrt (\<lambda>a b. (a \<in> set ?ranked \<and> b \<in> set ?ranked) \<and> \<not> less_overlap b a) ?ranked"
    by (simp add: sorted_wrt_iff_nth_less)
  then have s: "sorted_wrt (\<lambda>a b. \<not> spec_before b a) ?ranked"
    by (rule sorted_wrt_mono_rel[rotated]) (use st assms(2) less_overlap_spec in auto)
  have r: "resolveOverlaps srt es = spec_sweep ?ranked 0"
  proof (cases "length es \<le> 1")
    case False
    then show ?thesis by (simp add: resolveOverlaps_eq)
  next
    case True
    then have "es = [] \<or> (\<exists>x. es = [x])" by (cases es) auto
    then show ?thesis
    proof
      assume "es = []"
      with m show ?thesis by (simp add: resolveOverlaps_eq)
    next
      assume "\<exists>x. es = [x]"
      then obtain x where x: "es = [x]" by blast
      with m have "mset ?ranked = {#x#}" by simp
      then have rk: "?ranked = [x]" by (metis mset_single_iff_right)
      from assms(2) x have "0 \<le> Start x" by (simp add: offsets_ok_def)
      with x rk show ?thesis by (simp add: resolveOverlaps_eq)
    qed
  qed
  from m s r show ?thesis by blast
qed

theorem resolveOverlaps_rank_and_sweep_witness:
  "sorts (insertionSort :: (Entity \<Rightarrow> Entity \<Rightarrow> bool) \<Rightarrow> Entity list \<Rightarrow> Entity list)
   \<and> list_all offsets_ok
        [\<lparr>Text = ''c'', Start = 10, End = 15, Type = FIN, Labeled = False\<rparr>,
         \<lparr>Text = ''b'', Start = 5, End = 20, Type = IBAN, Labeled = False\<rparr>,
         \<lparr>Text = ''a'', Start = 0, End = 10, Type = VOEN, Labeled = False\<rparr>]
   \<and> resolveOverlaps insertionSort
        [\<lparr>Text = ''c'', Start = 10, End = 15, Type = FIN, Labeled = False\<rparr>,
         \<lparr>Text = ''b'', Start = 5, End = 20, Type = IBAN, Labeled = False\<rparr>,
         \<lparr>Text = ''a'', Start = 0, End = 10, Type = VOEN, Labeled = False\<rparr>]
      = spec_sweep
        [\<lparr>Text = ''a'', Start = 0, End = 10, Type = VOEN, Labeled = False\<rparr>,
         \<lparr>Text = ''b'', Start = 5, End = 20, Type = IBAN, Labeled = False\<rparr>,
         \<lparr>Text = ''c'', Start = 10, End = 15, Type = FIN, Labeled = False\<rparr>] 0
   \<and> spec_sweep
        [\<lparr>Text = ''a'', Start = 0, End = 10, Type = VOEN, Labeled = False\<rparr>,
         \<lparr>Text = ''b'', Start = 5, End = 20, Type = IBAN, Labeled = False\<rparr>,
         \<lparr>Text = ''c'', Start = 10, End = 15, Type = FIN, Labeled = False\<rparr>] 0
      = [\<lparr>Text = ''a'', Start = 0, End = 10, Type = VOEN, Labeled = False\<rparr>,
         \<lparr>Text = ''c'', Start = 10, End = 15, Type = FIN, Labeled = False\<rparr>]"
proof -
  let ?a = "\<lparr>Text = ''a'', Start = 0, End = 10, Type = VOEN, Labeled = False\<rparr>"
  let ?b = "\<lparr>Text = ''b'', Start = 5, End = 20, Type = IBAN, Labeled = False\<rparr>"
  let ?c = "\<lparr>Text = ''c'', Start = 10, End = 15, Type = FIN, Labeled = False\<rparr>"
  have ok: "\<forall>e \<in> set [?c, ?b, ?a]. offsets_ok e" by (simp add: offsets_ok_def)
  have rk: "insertionSort less_overlap [?c, ?b, ?a] = [?a, ?b, ?c]"
    by (simp add: insertionSort_def less_overlap_def)
  from resolveOverlaps_rank_and_sweep[OF insertionSort_sorts ok] rk ok insertionSort_sorts
  show ?thesis by simp
qed

text \<open>
  C4. \<open>recognize\<close> applied to \<open>"FIN: 5ARPXK2, tel +994501234567"\<close> returns exactly one FIN
  entity, with text \<open>"5ARPXK2"\<close> and labeled, and exactly one Phone entity, with text
  \<open>"+994501234567"\<close> and not labeled: the result is these two entities.
\<close>

theorem recognize_fin_and_phone:
  assumes "sorts srt"
  shows "recognize srt ''FIN: 5ARPXK2, tel +994501234567'' =
     [\<lparr>Text = ''5ARPXK2'', Start = 5, End = 12, Type = FIN, Labeled = True\<rparr>,
      \<lparr>Text = ''+994501234567'', Start = 18, End = 31, Type = Phone, Labeled = False\<rparr>]"
proof -
  let ?P = "\<lparr>Text = ''+994501234567'', Start = 18, End = 31, Type = Phone, Labeled = False\<rparr>"
  let ?L = "\<lparr>Text = ''5ARPXK2'', Start = 5, End = 12, Type = FIN, Labeled = True\<rparr>"
  let ?B = "\<lparr>Text = ''5ARPXK2'', Start = 5, End = 12, Type = FIN, Labeled = False\<rparr>"
  have m: "mset [?L, ?B, ?P] = mset [?P, ?L, ?B]" by simp
  have s: "sorted_wrt less_overlap [?L, ?B, ?P]" by (simp add: less_overlap_def)
  from sorts_unique[OF assms strict_weak_less_overlap m s]
  have "srt less_overlap [?P, ?L, ?B] = [?L, ?B, ?P]" .
  then have "resolveOverlaps srt [?P, ?L, ?B] = [?L, ?P]"
    by (simp add: resolveOverlaps_eq)
  then show ?thesis by (simp add: recognize_eq[OF assms] candidates_fin_and_phone)
qed

theorem recognize_fin_and_phone_witness:
  "sorts (insertionSort :: (Entity \<Rightarrow> Entity \<Rightarrow> bool) \<Rightarrow> Entity list \<Rightarrow> Entity list)
   \<and> recognize insertionSort ''FIN: 5ARPXK2, tel +994501234567'' =
     [\<lparr>Text = ''5ARPXK2'', Start = 5, End = 12, Type = FIN, Labeled = True\<rparr>,
      \<lparr>Text = ''+994501234567'', Start = 18, End = 31, Type = Phone, Labeled = False\<rparr>]"
  using recognize_fin_and_phone[OF insertionSort_sorts] insertionSort_sorts by simp

text \<open>
  C5. \<open>recognize\<close> applied to \<open>"AZ21NABZ00000000137010001944"\<close> returns exactly one IBAN
  entity, which spans the 28 bytes of the input, and nothing else: no bare FIN or bare VOEN
  entity is in the result.
\<close>

theorem recognize_iban:
  assumes "sorts srt"
  shows "recognize srt ''AZ21NABZ00000000137010001944'' =
     [\<lparr>Text = ''AZ21NABZ00000000137010001944'', Start = 0, End = 28, Type = IBAN,
       Labeled = False\<rparr>]
     \<and> length ''AZ21NABZ00000000137010001944'' = 28"
  by (simp add: recognize_eq[OF assms] candidates_iban resolveOverlaps_eq)

theorem recognize_iban_witness:
  "sorts (insertionSort :: (Entity \<Rightarrow> Entity \<Rightarrow> bool) \<Rightarrow> Entity list \<Rightarrow> Entity list)
   \<and> recognize insertionSort ''AZ21NABZ00000000137010001944'' =
     [\<lparr>Text = ''AZ21NABZ00000000137010001944'', Start = 0, End = 28, Type = IBAN,
       Labeled = False\<rparr>]"
  using recognize_iban[OF insertionSort_sorts] insertionSort_sorts by simp

text \<open>
  C6. \<open>recognize\<close> returns the empty result (Go's \<open>nil\<close>) for the empty input, and whenever
  no matcher produces a candidate, whatever the sorting function.
\<close>

theorem recognize_no_candidates:
  "recognize srt '''' = []
   \<and> (matchURL s = [] \<and> matchEmail s = [] \<and> matchIBAN s = [] \<and> matchLicensePlate s = []
        \<and> matchPhone s = [] \<and> matchFIN s = [] \<and> matchVOEN s = [] \<longrightarrow> recognize srt s = [])"
proof -
  have "candidates '''' = []" by code_simp
  then show ?thesis by (simp add: recognize_def candidates_def)
qed

theorem recognize_no_candidates_witness:
  "matchURL ''salam'' = [] \<and> matchEmail ''salam'' = [] \<and> matchIBAN ''salam'' = []
   \<and> matchLicensePlate ''salam'' = [] \<and> matchPhone ''salam'' = [] \<and> matchFIN ''salam'' = []
   \<and> matchVOEN ''salam'' = [] \<and> recognize insertionSort ''salam'' = []
   \<and> recognize insertionSort '''' = []"
proof -
  have m: "matchURL ''salam'' = []" "matchEmail ''salam'' = []" "matchIBAN ''salam'' = []"
    "matchLicensePlate ''salam'' = []" "matchPhone ''salam'' = []" "matchFIN ''salam'' = []"
    "matchVOEN ''salam'' = []" by code_simp+
  from recognize_no_candidates[of insertionSort "''salam''"] m show ?thesis by simp
qed

text \<open>
  C7, as amended. Every URL entity comes from a match of \<open>http://\<close> or \<open>https://\<close> followed
  by one or more bytes none of which is a tab, line feed, form feed, carriage return or
  space, nor one of \<open>< > " { } | \ ^ `\<close>; round and square brackets and every byte of a
  non-ASCII character are accepted. The entity's text is the match without its trailing
  bytes from \<open>.,;:!?)]}>\<close>, it ends in none of them, and the end offset is the start plus
  the length of the text, so that the text is the input between the two offsets.
\<close>

theorem matchURL_entities:
  assumes "e \<in> set (matchURL s)"
  shows "\<exists>b e1 p body.
      (p = ''http://'' \<or> p = ''https://'') \<and> body \<noteq> []
      \<and> (\<forall>c \<in> set body. \<not> cls_space (of_char c) \<and> c \<notin> set ''<>{}'' \<and> \<not> url_excluded (of_char c))
      \<and> e1 \<le> length s \<and> slice s (int b) (int e1) = p @ body
      \<and> Type e = URL \<and> Start e = int b
      \<and> Text e = TrimRight (p @ body) ''.,;:!?)]}>''
      \<and> End e = Start e + int (length (Text e))
      \<and> (\<exists>rest. p @ body = Text e @ rest \<and> set rest \<subseteq> set ''.,;:!?)]}>'')
      \<and> last (Text e) \<notin> set ''.,;:!?)]}>''
      \<and> Text e = slice s (Start e) (End e)"
proof -
  from assms obtain b e1 p body where p: "p = ''http://'' \<or> p = ''https://''"
    and e1: "b + length p < e1" "e1 \<le> length s"
    and sl: "slice s (int b) (int e1) = p @ body" and ne: "body \<noteq> []"
    and bts: "\<forall>c \<in> set body. cls_url (of_char c)"
    and e: "e = \<lparr>Text = TrimRight (p @ body) ''.,;:!?)]}>'', Start = int b,
           End = int b + int (length (TrimRight (p @ body) ''.,;:!?)]}>'')),
           Type = URL, Labeled = False\<rparr>"
    by (rule matchURL_shape)
  let ?t = "TrimRight (p @ body) ''.,;:!?)]}>''"
  from bts have b1: "\<forall>c \<in> set body. \<not> cls_space (of_char c) \<and> c \<notin> set ''<>{}''
      \<and> \<not> url_excluded (of_char c)"
    using url_excluded_reading by (auto simp: cls_url_def)
  from p have "p \<noteq> []" "last p \<notin> set ''.,;:!?)]}>''" by auto
  from TrimRight_keep[OF this] have "?t = p @ TrimRight body ''.,;:!?)]}>''" .
  with p have tne: "?t \<noteq> []" by auto
  from TrimRight_last[OF tne] have la: "last ?t \<notin> set ''.,;:!?)]}>''" .
  from TrimRight_decomp[of "p @ body" "''.,;:!?)]}>''"]
  have de: "\<exists>rest. p @ body = ?t @ rest \<and> set rest \<subseteq> set ''.,;:!?)]}>''" .
  from matchURL_ok[OF assms] have tx: "Text e = slice s (Start e) (End e)"
    by (simp add: cand_ok_def)
  have "(p = ''http://'' \<or> p = ''https://'') \<and> body \<noteq> []
      \<and> (\<forall>c \<in> set body. \<not> cls_space (of_char c) \<and> c \<notin> set ''<>{}'' \<and> \<not> url_excluded (of_char c))
      \<and> e1 \<le> length s \<and> slice s (int b) (int e1) = p @ body
      \<and> Type e = URL \<and> Start e = int b
      \<and> Text e = TrimRight (p @ body) ''.,;:!?)]}>''
      \<and> End e = Start e + int (length (Text e))
      \<and> (\<exists>rest. p @ body = Text e @ rest \<and> set rest \<subseteq> set ''.,;:!?)]}>'')
      \<and> last (Text e) \<notin> set ''.,;:!?)]}>''
      \<and> Text e = slice s (Start e) (End e)"
    using p ne b1 e1(2) sl la de tx by (simp add: e)
  then show ?thesis by blast
qed

theorem matchURL_entities_witness:
  "\<lparr>Text = ''http://a.b/c'', Start = 4, End = 16, Type = URL, Labeled = False\<rparr>
     \<in> set (matchURL ''see http://a.b/c).] x'')
   \<and> (\<exists>b e1 p body.
      (p = ''http://'' \<or> p = ''https://'') \<and> body \<noteq> []
      \<and> (\<forall>c \<in> set body. \<not> cls_space (of_char c) \<and> c \<notin> set ''<>{}'' \<and> \<not> url_excluded (of_char c))
      \<and> e1 \<le> length ''see http://a.b/c).] x''
      \<and> slice ''see http://a.b/c).] x'' (int b) (int e1) = p @ body
      \<and> Type \<lparr>Text = ''http://a.b/c'', Start = 4, End = 16, Type = URL, Labeled = False\<rparr> = URL
      \<and> Start \<lparr>Text = ''http://a.b/c'', Start = 4, End = 16, Type = URL, Labeled = False\<rparr> = int b
      \<and> ''http://a.b/c'' = TrimRight (p @ body) ''.,;:!?)]}>'')"
proof -
  let ?e = "\<lparr>Text = ''http://a.b/c'', Start = 4, End = 16, Type = URL, Labeled = False\<rparr>"
  have m: "?e \<in> set (matchURL ''see http://a.b/c).] x'')" by code_simp
  from matchURL_entities[OF m] obtain b e1 p body where
    "(p = ''http://'' \<or> p = ''https://'') \<and> body \<noteq> []
      \<and> (\<forall>c \<in> set body. \<not> cls_space (of_char c) \<and> c \<notin> set ''<>{}'' \<and> \<not> url_excluded (of_char c))
      \<and> e1 \<le> length ''see http://a.b/c).] x''
      \<and> slice ''see http://a.b/c).] x'' (int b) (int e1) = p @ body
      \<and> Type ?e = URL \<and> Start ?e = int b
      \<and> Text ?e = TrimRight (p @ body) ''.,;:!?)]}>''" by blast
  then have "\<exists>b e1 p body. (p = ''http://'' \<or> p = ''https://'') \<and> body \<noteq> []
      \<and> (\<forall>c \<in> set body. \<not> cls_space (of_char c) \<and> c \<notin> set ''<>{}'' \<and> \<not> url_excluded (of_char c))
      \<and> e1 \<le> length ''see http://a.b/c).] x''
      \<and> slice ''see http://a.b/c).] x'' (int b) (int e1) = p @ body
      \<and> Type ?e = URL \<and> Start ?e = int b
      \<and> ''http://a.b/c'' = TrimRight (p @ body) ''.,;:!?)]}>''" by auto
  with m show ?thesis by blast
qed

text \<open>The claim as it stands fails on a round bracket: the entity found in \<open>"http://a(b"\<close> is
  the whole input, and the byte after the scheme's \<open>a\<close> is \<open>(\<close>.\<close>

theorem matchURL_bracket_counterexample:
  "matchURL ''http://a(b'' =
     [\<lparr>Text = ''http://a(b'', Start = 0, End = 10, Type = URL, Labeled = False\<rparr>]
   \<and> ''http://a(b'' ! 8 = CHR ''(''"
  by code_simp

text \<open>
  C8, as amended. A labeled FIN entity is produced exactly where, at an ASCII word
  boundary, the keyword FIN in either case is followed by one \<open>:\<close> or whitespace character,
  at most one more whitespace character, and then 7 characters of \<open>[A-HJ-NP-Z0-9]\<close> read
  without regard to case (the flag \<open>(?i)\<close> covers the whole pattern: lower-case letters
  but i and o count, and so do the case-folding equivalents \<open>U+212A\<close> and \<open>U+017F\<close>), ending
  at an ASCII word boundary. The entity's start, end and text cover those 7 characters
  only, never the keyword or the separator.
\<close>

theorem matchFIN_labeled_iff:
  "(x \<in> set (matchFIN s) \<and> Labeled x) =
   (\<exists>k gb e. fin_labeled_at s k gb e
      \<and> x = \<lparr>Text = slice s (int gb) (int e), Start = int gb, End = int e, Type = FIN,
              Labeled = True\<rparr>)"
proof
  assume "x \<in> set (matchFIN s) \<and> Labeled x"
  then have xm: "x \<in> set (map (labeled_entity_of s FIN) (FindAllStringSubmatchIndex reFINLabeled s))
      \<or> x \<in> set (map (entity_of s FIN) (FindAllStringIndex reFINBare s))" and lx: "Labeled x"
    by (simp_all add: matchFIN_def)
  have "x \<notin> set (map (entity_of s FIN) (FindAllStringIndex reFINBare s))"
  proof
    assume "x \<in> set (map (entity_of s FIN) (FindAllStringIndex reFINBare s))"
    then obtain m where "x = entity_of s FIN m" by (auto simp: image_iff)
    then have "\<not> Labeled x" by (simp add: entity_of_def)
    with lx show False by simp
  qed
  with xm have "x \<in> labeled_entity_of s FIN ` set (FindAllStringSubmatchIndex reFINLabeled s)"
    by simp
  then obtain sub where sub: "sub \<in> set (FindAllStringSubmatchIndex reFINLabeled s)"
    and x: "x = labeled_entity_of s FIN sub" by (rule imageE)
  from sub obtain b e cs ts where
    s1: "sub = [int b, int e] @ concat (map (group_index cs) [1 ..< Suc (ncap reFINLabeled)])"
    and m: "ms reFINLabeled s (b, []) = (e, cs) # ts"
    by (rule FindAllStringSubmatchIndex_sound)
  from m have "(e, cs) \<in> set (ms reFINLabeled s (b, []))" by simp
  then obtain gb where sh: "fin_labeled_at s b gb e" and cs: "cs = [(1, gb, e)]"
    by (rule fin_match_elim)
  have n: "ncap reFINLabeled = 1" by (simp add: reFINLabeled_def liti_def)
  from s1 cs n have "sub = [int b, int e, int gb, int e]" by (simp add: group_index_def)
  with x have "x = \<lparr>Text = slice s (int gb) (int e), Start = int gb, End = int e, Type = FIN,
              Labeled = True\<rparr>" by (simp add: labeled_entity_of_def)
  with sh show "\<exists>k gb e. fin_labeled_at s k gb e
      \<and> x = \<lparr>Text = slice s (int gb) (int e), Start = int gb, End = int e, Type = FIN,
              Labeled = True\<rparr>" by blast
next
  assume "\<exists>k gb e. fin_labeled_at s k gb e
      \<and> x = \<lparr>Text = slice s (int gb) (int e), Start = int gb, End = int e, Type = FIN,
              Labeled = True\<rparr>"
  then obtain k gb e where sh: "fin_labeled_at s k gb e"
    and x: "x = \<lparr>Text = slice s (int gb) (int e), Start = int gb, End = int e, Type = FIN,
              Labeled = True\<rparr>" by blast
  from fin_match_hd[OF sh] obtain ts where m: "ms reFINLabeled s (k, []) = (e, [(1, gb, e)]) # ts"
    by blast
  from sh have kw: "fin_keyword_at s k gb" by (simp add: fin_labeled_at_def)
  then have kf: "s ! k = CHR ''F'' \<or> s ! k = CHR ''f''" and kl: "k + 4 \<le> length s"
    and kg0: "gb = k + 4 \<or> gb = k + 5" by (simp_all add: fin_keyword_at_def, blast)
  from kg0 have kg: "k + 4 \<le> gb" by arith
  from fin_code_start[OF sh] kg have ke: "k < e" by simp
  from kf have "byte_at s k < 0x80" unfolding byte_at_def by (elim disjE) simp_all
  with kl have aa: "ascii_at s k" by (simp add: ascii_at_def)
  have ns: "\<forall>j e' cs' ts'. j < k \<and> ms reFINLabeled s (j, []) = (e', cs') # ts' \<longrightarrow> j < e' \<and> e' \<le> k"
  proof (intro allI impI, elim conjE)
    fix j e' cs' ts' assume j: "j < k" and mj: "ms reFINLabeled s (j, []) = (e', cs') # ts'"
    from mj have "(e', cs') \<in> set (ms reFINLabeled s (j, []))" by simp
    then obtain gb' where sj: "fin_labeled_at s j gb' e'" by (rule fin_match_elim)
    from sj have "fin_keyword_at s j gb'" by (simp add: fin_labeled_at_def)
    then have "gb' = j + 4 \<or> gb' = j + 5" by (simp add: fin_keyword_at_def, blast)
    then have "j + 4 \<le> gb'" by arith
    with fin_code_start[OF sj] have "j < e'" by simp
    with fin_no_straddle[OF sh j sj] show "j < e' \<and> e' \<le> k" by simp
  qed
  from all_matches_complete[OF m ke aa _ ns, of 0 None]
  have am: "(k, e, [(1, gb, e)]) \<in> set (all_matches reFINLabeled s 0 None)" by simp
  have n: "ncap reFINLabeled = 1" by (simp add: reFINLabeled_def liti_def)
  let ?f = "\<lambda>(b, e, cs). [int b, int e] @ concat (map (group_index cs) [1 ..< Suc (ncap reFINLabeled)])"
  from am have "?f (k, e, [(1, gb, e)]) \<in> ?f ` set (all_matches reFINLabeled s 0 None)"
    by (rule imageI)
  then have "?f (k, e, [(1, gb, e)]) \<in> set (FindAllStringSubmatchIndex reFINLabeled s)"
    by (simp only: FindAllStringSubmatchIndex_def set_map)
  with n have "[int k, int e, int gb, int e] \<in> set (FindAllStringSubmatchIndex reFINLabeled s)"
    by (simp add: group_index_def)
  then have "labeled_entity_of s FIN [int k, int e, int gb, int e]
      \<in> labeled_entity_of s FIN ` set (FindAllStringSubmatchIndex reFINLabeled s)"
    by (rule imageI)
  with x show "x \<in> set (matchFIN s) \<and> Labeled x"
    by (simp add: matchFIN_def labeled_entity_of_def)
qed

theorem matchFIN_labeled_iff_witness:
  "fin_labeled_at ''FIN: 5ARPXK2, tel +994501234567'' 0 5 12
   \<and> \<lparr>Text = ''5ARPXK2'', Start = 5, End = 12, Type = FIN, Labeled = True\<rparr>
       \<in> set (matchFIN ''FIN: 5ARPXK2, tel +994501234567'')"
proof -
  let ?s = "''FIN: 5ARPXK2, tel +994501234567''"
  have m: "\<lparr>Text = ''5ARPXK2'', Start = 5, End = 12, Type = FIN, Labeled = True\<rparr>
       \<in> set (matchFIN ?s)" by code_simp
  have sl: "slice ?s (int 5) (int 12) = ''5ARPXK2''" by code_simp
  have "fin_labeled_at ?s 0 5 12" by code_simp
  moreover from this sl have "\<exists>k gb e. fin_labeled_at ?s k gb e
      \<and> \<lparr>Text = ''5ARPXK2'', Start = 5, End = 12, Type = FIN, Labeled = True\<rparr>
        = \<lparr>Text = slice ?s (int gb) (int e), Start = int gb, End = int e, Type = FIN,
           Labeled = True\<rparr>"
    by (intro exI[of _ 0] exI[of _ 5] exI[of _ 12]) simp
  ultimately show ?thesis
    using matchFIN_labeled_iff[of "\<lparr>Text = ''5ARPXK2'', Start = 5, End = 12, Type = FIN,
      Labeled = True\<rparr>" ?s] by simp
qed

text \<open>The claim as it stands fails in three ways: a lower-case code after the keyword is a
  labeled FIN although its letters are not of \<open>[A-HJ-NP-Z0-9]\<close>; the keyword with no
  separator before the code gives no labeled FIN; nor does the keyword inside a word.\<close>

theorem matchFIN_labeled_counterexample:
  "\<lparr>Text = ''5arpxk2'', Start = 5, End = 12, Type = FIN, Labeled = True\<rparr>
     \<in> set (matchFIN ''fin: 5arpxk2'')
   \<and> \<not> list_all (\<lambda>ch. cls_fin (of_char ch)) ''5arpxk2''
   \<and> filter Labeled (matchFIN ''FIN5ARPXK2'') = []
   \<and> filter Labeled (matchFIN ''xFIN: 5ARPXK2'') = []"
  by code_simp

text \<open>
  C9. The word-boundary tests of the five word-bounded patterns are tests on ASCII word
  characters. For every input \<open>s\<close> and every span \<open>[a, b)\<close>, the bare FIN, bare VOEN, IBAN,
  license plate and local phone pattern each report the span exactly when it has the
  pattern's shape and stands free, that is when neither the byte before \<open>a\<close> nor the byte
  at \<open>b\<close> is one of \<open>[0-9A-Za-z_]\<close>: an ASCII letter, digit or underscore next to the span
  prevents the match, and nothing else does. The unlabeled entities of \<open>matchFIN\<close> and
  \<open>matchVOEN\<close> and the entities of \<open>matchIBAN\<close> and \<open>matchLicensePlate\<close> are exactly these
  spans; the entities of \<open>matchPhone\<close> are those of the international pattern, which has
  no word-boundary test, and these spans of the local pattern.
  A span right after, right before or between Azerbaijani letters with diacritics stands
  free; so a run of 10 digits, and a code of 7 characters of \<open>[A-HJ-NP-Z0-9]\<close>, in these
  places is matched as a bare VOEN, and as a bare FIN, whatever else the input holds
  before and after.
\<close>

theorem word_boundary_ascii:
  "(([int a, int b] \<in> set (FindAllStringIndex reFINBare s)) = fin_bare_at s a b)
   \<and> (([int a, int b] \<in> set (FindAllStringIndex reVOENBare s)) = voen_bare_at s a b)
   \<and> (([int a, int b] \<in> set (FindAllStringIndex reIBAN s)) = iban_at s a b)
   \<and> (([int a, int b] \<in> set (FindAllStringIndex reLicensePlate s)) = plate_at s a b)
   \<and> (([int a, int b] \<in> set (FindAllStringIndex rePhoneLocal s)) = phone_local_at s a b)
   \<and> ((x \<in> set (matchFIN s) \<and> \<not> Labeled x)
        = (\<exists>a b. fin_bare_at s a b \<and> x = entity_of s FIN [int a, int b]))
   \<and> ((x \<in> set (matchVOEN s) \<and> \<not> Labeled x)
        = (\<exists>a b. voen_bare_at s a b \<and> x = entity_of s VOEN [int a, int b]))
   \<and> ((x \<in> set (matchIBAN s)) = (\<exists>a b. iban_at s a b \<and> x = entity_of s IBAN [int a, int b]))
   \<and> ((x \<in> set (matchLicensePlate s))
        = (\<exists>a b. plate_at s a b \<and> x = entity_of s LicensePlate [int a, int b]))
   \<and> ((x \<in> set (matchPhone s))
        = (x \<in> set (map (entity_of s Phone) (FindAllStringIndex rePhoneIntl s))
           \<or> (\<exists>a b. phone_local_at s a b \<and> x = entity_of s Phone [int a, int b])))
   \<and> (l1 \<in> set az_diacritics \<and> l2 \<in> set az_diacritics \<longrightarrow>
        free_standing (pre @ l1 @ w @ l2 @ post) (length (pre @ l1)) (length (pre @ l1 @ w))
        \<and> free_standing (pre @ l1 @ w) (length (pre @ l1)) (length (pre @ l1 @ w))
        \<and> free_standing (w @ l2 @ post) 0 (length w))
   \<and> (l1 \<in> set az_diacritics \<and> l2 \<in> set az_diacritics
        \<and> length d = 10 \<and> (\<forall>ch \<in> set d. cls_digit (of_char ch)) \<longrightarrow>
        \<lparr>Text = d, Start = int (length (pre @ l1)), End = int (length (pre @ l1)) + 10,
          Type = VOEN, Labeled = False\<rparr> \<in> set (matchVOEN (pre @ l1 @ d @ l2 @ post))
        \<and> \<lparr>Text = d, Start = int (length (pre @ l1)), End = int (length (pre @ l1)) + 10,
            Type = VOEN, Labeled = False\<rparr> \<in> set (matchVOEN (pre @ l1 @ d))
        \<and> \<lparr>Text = d, Start = 0, End = 10, Type = VOEN, Labeled = False\<rparr>
            \<in> set (matchVOEN (d @ l2 @ post)))
   \<and> (l1 \<in> set az_diacritics \<and> l2 \<in> set az_diacritics
        \<and> length f = 7 \<and> (\<forall>ch \<in> set f. cls_fin (of_char ch)) \<longrightarrow>
        \<lparr>Text = f, Start = int (length (pre @ l1)), End = int (length (pre @ l1)) + 7,
          Type = FIN, Labeled = False\<rparr> \<in> set (matchFIN (pre @ l1 @ f @ l2 @ post))
        \<and> \<lparr>Text = f, Start = int (length (pre @ l1)), End = int (length (pre @ l1)) + 7,
            Type = FIN, Labeled = False\<rparr> \<in> set (matchFIN (pre @ l1 @ f))
        \<and> \<lparr>Text = f, Start = 0, End = 7, Type = FIN, Labeled = False\<rparr>
            \<in> set (matchFIN (f @ l2 @ post)))"
proof (intro conjI impI)
  show "([int a, int b] \<in> set (FindAllStringIndex reFINBare s)) = fin_bare_at s a b"
    by (rule fin_bare_char)
  show "([int a, int b] \<in> set (FindAllStringIndex reVOENBare s)) = voen_bare_at s a b"
    by (rule voen_bare_char)
  show "([int a, int b] \<in> set (FindAllStringIndex reIBAN s)) = iban_at s a b"
    by (rule iban_char)
  show "([int a, int b] \<in> set (FindAllStringIndex reLicensePlate s)) = plate_at s a b"
    by (rule plate_char)
  show "([int a, int b] \<in> set (FindAllStringIndex rePhoneLocal s)) = phone_local_at s a b"
    by (rule phone_char)
  show "(x \<in> set (matchFIN s) \<and> \<not> Labeled x)
        = (\<exists>a b. fin_bare_at s a b \<and> x = entity_of s FIN [int a, int b])"
    unfolding matchFIN_def unlabeled_entity by (rule entity_char) (rule fin_bare_char)
  show "(x \<in> set (matchVOEN s) \<and> \<not> Labeled x)
        = (\<exists>a b. voen_bare_at s a b \<and> x = entity_of s VOEN [int a, int b])"
    unfolding matchVOEN_def unlabeled_entity by (rule entity_char) (rule voen_bare_char)
  show "(x \<in> set (matchIBAN s)) = (\<exists>a b. iban_at s a b \<and> x = entity_of s IBAN [int a, int b])"
    unfolding matchIBAN_def by (rule entity_char) (rule iban_char)
  show "(x \<in> set (matchLicensePlate s))
        = (\<exists>a b. plate_at s a b \<and> x = entity_of s LicensePlate [int a, int b])"
    unfolding matchLicensePlate_def by (rule entity_char) (rule plate_char)
  have "(x \<in> set (matchPhone s))
        = (x \<in> set (map (entity_of s Phone) (FindAllStringIndex rePhoneIntl s))
           \<or> x \<in> set (map (entity_of s Phone) (FindAllStringIndex rePhoneLocal s)))"
    by (simp add: matchPhone_def)
  also have "(x \<in> set (map (entity_of s Phone) (FindAllStringIndex rePhoneLocal s)))
        = (\<exists>a b. phone_local_at s a b \<and> x = entity_of s Phone [int a, int b])"
    by (rule entity_char) (rule phone_char)
  finally show "(x \<in> set (matchPhone s))
        = (x \<in> set (map (entity_of s Phone) (FindAllStringIndex rePhoneIntl s))
           \<or> (\<exists>a b. phone_local_at s a b \<and> x = entity_of s Phone [int a, int b]))" .
next
  assume h: "l1 \<in> set az_diacritics \<and> l2 \<in> set az_diacritics"
  then have h1: "l1 \<in> set az_diacritics" and h2: "l2 \<in> set az_diacritics" by simp_all
  show "free_standing (pre @ l1 @ w @ l2 @ post) (length (pre @ l1)) (length (pre @ l1 @ w))"
    by (rule az_free_standing(1)[OF h1 h2])
  show "free_standing (pre @ l1 @ w) (length (pre @ l1)) (length (pre @ l1 @ w))"
    by (rule az_free_standing(2)[OF h1 h2])
  show "free_standing (w @ l2 @ post) 0 (length w)"
    by (rule az_free_standing(3)[OF h1 h2])
next
  assume h: "l1 \<in> set az_diacritics \<and> l2 \<in> set az_diacritics
        \<and> length d = 10 \<and> (\<forall>ch \<in> set d. cls_digit (of_char ch))"
  then have h1: "l1 \<in> set az_diacritics" and h2: "l2 \<in> set az_diacritics"
    and d: "length d = 10" "\<forall>ch \<in> set d. cls_digit (of_char ch)" by simp_all
  from az_diacritics_not_word[OF h1]
  have L: "pre @ l1 = [] \<or> \<not> is_word_char (of_char (last (pre @ l1)))" by simp
  from az_diacritics_not_word[OF h2]
  have R: "l2 @ post = [] \<or> \<not> is_word_char (of_char (hd (l2 @ post)))" by simp
  have E: "([]::string) = [] \<or> \<not> is_word_char (of_char (last ([]::string)))"
    "([]::string) = [] \<or> \<not> is_word_char (of_char (hd ([]::string)))" by simp_all
  from voen_in_context[OF d L R]
  show "\<lparr>Text = d, Start = int (length (pre @ l1)), End = int (length (pre @ l1)) + 10,
          Type = VOEN, Labeled = False\<rparr> \<in> set (matchVOEN (pre @ l1 @ d @ l2 @ post))" by simp
  from voen_in_context[OF d L E(2)]
  show "\<lparr>Text = d, Start = int (length (pre @ l1)), End = int (length (pre @ l1)) + 10,
            Type = VOEN, Labeled = False\<rparr> \<in> set (matchVOEN (pre @ l1 @ d))" by simp
  from voen_in_context[OF d E(1) R]
  show "\<lparr>Text = d, Start = 0, End = 10, Type = VOEN, Labeled = False\<rparr>
            \<in> set (matchVOEN (d @ l2 @ post))" by simp
next
  assume h: "l1 \<in> set az_diacritics \<and> l2 \<in> set az_diacritics
        \<and> length f = 7 \<and> (\<forall>ch \<in> set f. cls_fin (of_char ch))"
  then have h1: "l1 \<in> set az_diacritics" and h2: "l2 \<in> set az_diacritics"
    and d: "length f = 7" "\<forall>ch \<in> set f. cls_fin (of_char ch)" by simp_all
  from az_diacritics_not_word[OF h1]
  have L: "pre @ l1 = [] \<or> \<not> is_word_char (of_char (last (pre @ l1)))" by simp
  from az_diacritics_not_word[OF h2]
  have R: "l2 @ post = [] \<or> \<not> is_word_char (of_char (hd (l2 @ post)))" by simp
  have E: "([]::string) = [] \<or> \<not> is_word_char (of_char (last ([]::string)))"
    "([]::string) = [] \<or> \<not> is_word_char (of_char (hd ([]::string)))" by simp_all
  from fin_in_context[OF d L R]
  show "\<lparr>Text = f, Start = int (length (pre @ l1)), End = int (length (pre @ l1)) + 7,
          Type = FIN, Labeled = False\<rparr> \<in> set (matchFIN (pre @ l1 @ f @ l2 @ post))" by simp
  from fin_in_context[OF d L E(2)]
  show "\<lparr>Text = f, Start = int (length (pre @ l1)), End = int (length (pre @ l1)) + 7,
            Type = FIN, Labeled = False\<rparr> \<in> set (matchFIN (pre @ l1 @ f))" by simp
  from fin_in_context[OF d E(1) R]
  show "\<lparr>Text = f, Start = 0, End = 7, Type = FIN, Labeled = False\<rparr>
            \<in> set (matchFIN (f @ l2 @ post))" by simp
qed

theorem word_boundary_ascii_witness:
  "[CHR 0xC9, CHR 0x99] \<in> set az_diacritics \<and> [CHR 0xC3, CHR 0xB6] \<in> set az_diacritics
   \<and> length ''1234567890'' = 10 \<and> list_all (\<lambda>ch. cls_digit (of_char ch)) ''1234567890''
   \<and> length ''5ARPXK2'' = 7 \<and> list_all (\<lambda>ch. cls_fin (of_char ch)) ''5ARPXK2''
   \<and> \<lparr>Text = ''1234567890'', Start = 6, End = 16, Type = VOEN, Labeled = False\<rparr>
       \<in> set (matchVOEN (''tel '' @ [CHR 0xC9, CHR 0x99] @ ''1234567890'' @ [CHR 0xC3, CHR 0xB6] @ ''.''))
   \<and> \<lparr>Text = ''5ARPXK2'', Start = 6, End = 13, Type = FIN, Labeled = False\<rparr>
       \<in> set (matchFIN (''tel '' @ [CHR 0xC9, CHR 0x99] @ ''5ARPXK2'' @ [CHR 0xC3, CHR 0xB6] @ ''.''))
   \<and> free_standing (''tel '' @ [CHR 0xC9, CHR 0x99] @ ''1234567890'' @ [CHR 0xC3, CHR 0xB6] @ ''.'') 6 16
   \<and> [6, 16] \<in> set (FindAllStringIndex reVOENBare
        (''tel '' @ [CHR 0xC9, CHR 0x99] @ ''1234567890'' @ [CHR 0xC3, CHR 0xB6] @ ''.''))
   \<and> [1, 11] \<notin> set (FindAllStringIndex reVOENBare ''a1234567890'')
   \<and> [0, 10] \<notin> set (FindAllStringIndex reVOENBare ''1234567890_'')
   \<and> [6, 13] \<in> set (FindAllStringIndex reFINBare
        (''tel '' @ [CHR 0xC9, CHR 0x99] @ ''5ARPXK2'' @ [CHR 0xC3, CHR 0xB6] @ ''.''))
   \<and> [1, 8] \<notin> set (FindAllStringIndex reFINBare ''Z5ARPXK2'')
   \<and> [2, 30] \<in> set (FindAllStringIndex reIBAN
        ([CHR 0xC9, CHR 0x99] @ ''AZ21NABZ00000000137010001944'' @ [CHR 0xC3, CHR 0xB6]))
   \<and> [1, 29] \<notin> set (FindAllStringIndex reIBAN ''xAZ21NABZ00000000137010001944'')
   \<and> [2, 11] \<in> set (FindAllStringIndex reLicensePlate
        ([CHR 0xC9, CHR 0x99] @ ''10-AB-123'' @ [CHR 0xC3, CHR 0xB6]))
   \<and> [0, 9] \<notin> set (FindAllStringIndex reLicensePlate ''10-AB-1234'')
   \<and> [2, 14] \<in> set (FindAllStringIndex rePhoneLocal
        ([CHR 0xC9, CHR 0x99] @ ''012 345 6789'' @ [CHR 0xC3, CHR 0xB6]))
   \<and> [1, 11] \<notin> set (FindAllStringIndex rePhoneLocal ''a0123456789'')
   \<and> matchVOEN ''a1234567890'' = [] \<and> matchVOEN ''1234567890_'' = []
   \<and> matchFIN ''Z5ARPXK2'' = [] \<and> matchIBAN ''xAZ21NABZ00000000137010001944'' = []
   \<and> matchLicensePlate ''10-AB-1234'' = [] \<and> matchPhone ''a0123456789'' = []"
proof -
  let ?e = "[CHR 0xC9, CHR 0x99]" and ?o = "[CHR 0xC3, CHR 0xB6]"
  let ?sv = "''tel '' @ ?e @ ''1234567890'' @ ?o @ ''.''"
  let ?sf = "''tel '' @ ?e @ ''5ARPXK2'' @ ?o @ ''.''"
  have h: "?e \<in> set az_diacritics" "?o \<in> set az_diacritics"
    by (simp_all add: az_diacritics_def)
  have d: "length ''1234567890'' = 10" "\<forall>ch \<in> set ''1234567890''. cls_digit (of_char ch)"
    by (simp_all add: cls_digit_def rng_def)
  have f: "length ''5ARPXK2'' = 7" "\<forall>ch \<in> set ''5ARPXK2''. cls_fin (of_char ch)"
    by (simp_all add: cls_fin_def rng_def)
  note T = word_boundary_ascii[where ?l1.0 = ?e and ?l2.0 = ?o and pre = "''tel ''" and post = "''.''"
      and d = "''1234567890''" and f = "''5ARPXK2''" and w = "''1234567890''"]
  from T h d f have ents:
    "\<lparr>Text = ''1234567890'', Start = 6, End = 16, Type = VOEN, Labeled = False\<rparr> \<in> set (matchVOEN ?sv)"
    "\<lparr>Text = ''5ARPXK2'', Start = 6, End = 13, Type = FIN, Labeled = False\<rparr> \<in> set (matchFIN ?sf)"
    by simp_all
  from T h have "free_standing ?sv (length (''tel '' @ ?e)) (length (''tel '' @ ?e @ ''1234567890''))"
    by blast
  moreover have "length (''tel '' @ ?e) = 6" "length (''tel '' @ ?e @ ''1234567890'') = 16"
    by simp_all
  ultimately have fs: "free_standing ?sv 6 16" by (simp only:)
  have n1: "\<not> voen_bare_at ''a1234567890'' 1 11" "\<not> voen_bare_at ''1234567890_'' 0 10"
    "\<not> fin_bare_at ''Z5ARPXK2'' 1 8" "\<not> iban_at ''xAZ21NABZ00000000137010001944'' 1 29"
    "\<not> plate_at ''10-AB-1234'' 0 9" "\<not> phone_local_at ''a0123456789'' 1 11"
    by code_simp+
  have p1: "iban_at (?e @ ''AZ21NABZ00000000137010001944'' @ ?o) 2 30"
    "plate_at (?e @ ''10-AB-123'' @ ?o) 2 11" "phone_local_at (?e @ ''012 345 6789'' @ ?o) 2 14"
    "voen_bare_at ?sv 6 16" "fin_bare_at ?sf 6 13"
    by code_simp+
  from word_boundary_ascii[where a = 1 and b = 11 and s = "''a1234567890''"] n1(1)
  have r1: "[1, 11] \<notin> set (FindAllStringIndex reVOENBare ''a1234567890'')" by simp
  from word_boundary_ascii[where a = 0 and b = 10 and s = "''1234567890_''"] n1(2)
  have r2: "[0, 10] \<notin> set (FindAllStringIndex reVOENBare ''1234567890_'')" by simp
  from word_boundary_ascii[where a = 1 and b = 8 and s = "''Z5ARPXK2''"] n1(3)
  have r3: "[1, 8] \<notin> set (FindAllStringIndex reFINBare ''Z5ARPXK2'')" by simp
  from word_boundary_ascii[where a = 1 and b = 29 and s = "''xAZ21NABZ00000000137010001944''"] n1(4)
  have r4: "[1, 29] \<notin> set (FindAllStringIndex reIBAN ''xAZ21NABZ00000000137010001944'')" by simp
  from word_boundary_ascii[where a = 0 and b = 9 and s = "''10-AB-1234''"] n1(5)
  have r5: "[0, 9] \<notin> set (FindAllStringIndex reLicensePlate ''10-AB-1234'')" by simp
  from word_boundary_ascii[where a = 1 and b = 11 and s = "''a0123456789''"] n1(6)
  have r6: "[1, 11] \<notin> set (FindAllStringIndex rePhoneLocal ''a0123456789'')" by simp
  from word_boundary_ascii[where a = 2 and b = 30
      and s = "?e @ ''AZ21NABZ00000000137010001944'' @ ?o"] p1(1)
  have q1: "[2, 30] \<in> set (FindAllStringIndex reIBAN (?e @ ''AZ21NABZ00000000137010001944'' @ ?o))"
    by simp
  from word_boundary_ascii[where a = 2 and b = 11 and s = "?e @ ''10-AB-123'' @ ?o"] p1(2)
  have q2: "[2, 11] \<in> set (FindAllStringIndex reLicensePlate (?e @ ''10-AB-123'' @ ?o))" by simp
  from word_boundary_ascii[where a = 2 and b = 14 and s = "?e @ ''012 345 6789'' @ ?o"] p1(3)
  have q3: "[2, 14] \<in> set (FindAllStringIndex rePhoneLocal (?e @ ''012 345 6789'' @ ?o))" by simp
  from word_boundary_ascii[where a = 6 and b = 16 and s = ?sv] p1(4)
  have q4: "[6, 16] \<in> set (FindAllStringIndex reVOENBare ?sv)" by simp
  from word_boundary_ascii[where a = 6 and b = 13 and s = ?sf] p1(5)
  have q5: "[6, 13] \<in> set (FindAllStringIndex reFINBare ?sf)" by simp
  have ev: "matchVOEN ''a1234567890'' = []" "matchVOEN ''1234567890_'' = []"
    "matchFIN ''Z5ARPXK2'' = []" "matchIBAN ''xAZ21NABZ00000000137010001944'' = []"
    "matchLicensePlate ''10-AB-1234'' = []" "matchPhone ''a0123456789'' = []"
    by code_simp+
  from h d f have pre: "?e \<in> set az_diacritics \<and> ?o \<in> set az_diacritics
   \<and> length ''1234567890'' = 10 \<and> list_all (\<lambda>ch. cls_digit (of_char ch)) ''1234567890''
   \<and> length ''5ARPXK2'' = 7 \<and> list_all (\<lambda>ch. cls_fin (of_char ch)) ''5ARPXK2''"
    by (simp only: list_all_iff)
  from pre ents fs r1 r2 r3 r4 r5 r6 q1 q2 q3 q4 q5 ev show ?thesis by blast
qed

text \<open>
  C10. For every non-empty candidate list (of entities whose offsets are non-negative
  values of Go's \<open>int\<close>), \<open>resolveOverlaps\<close> returns a non-empty result. Its first entity is
  a candidate that no candidate precedes in the composite order (minimal start; among
  those, maximal length; among those, labeled before unlabeled), and a candidate that
  precedes every other one is committed. Hence \<open>recognize\<close> returns a non-empty list
  whenever a matcher produces a candidate.
\<close>

theorem resolveOverlaps_commits_first:
  assumes "sorts srt" "es \<noteq> []" "\<forall>e \<in> set es. offsets_ok e"
  shows "resolveOverlaps srt es \<noteq> []
         \<and> hd (resolveOverlaps srt es) \<in> set es
         \<and> (\<forall>x \<in> set es. \<not> spec_before x (hd (resolveOverlaps srt es)))
         \<and> (\<forall>c \<in> set es. (\<forall>x \<in> set es. x \<noteq> c \<longrightarrow> spec_before c x)
               \<longrightarrow> c \<in> set (resolveOverlaps srt es))
         \<and> (candidates s \<noteq> [] \<longrightarrow> recognize srt s \<noteq> [])"
proof -
  let ?h = "hd (resolveOverlaps srt es)"
  from assms(3) have nn: "\<forall>e \<in> set es. 0 \<le> Start e" by (simp add: offsets_ok_def)
  from resolveOverlaps_head[OF assms(1,2) nn]
  have ne: "resolveOverlaps srt es \<noteq> []" and h: "?h \<in> set es"
    and mn: "\<forall>x \<in> set es. \<not> less_overlap x ?h" by simp_all
  from mn h assms(3) have mn': "\<forall>x \<in> set es. \<not> spec_before x ?h"
    using less_overlap_spec by blast
  have first: "\<forall>c \<in> set es. (\<forall>x \<in> set es. x \<noteq> c \<longrightarrow> spec_before c x)
               \<longrightarrow> c \<in> set (resolveOverlaps srt es)"
  proof (intro ballI impI)
    fix c assume c: "c \<in> set es" and f: "\<forall>x \<in> set es. x \<noteq> c \<longrightarrow> spec_before c x"
    from f h mn' c have "?h = c" by blast
    with ne show "c \<in> set (resolveOverlaps srt es)" by (metis hd_in_set)
  qed
  have rec: "candidates s \<noteq> [] \<longrightarrow> recognize srt s \<noteq> []"
  proof
    assume c: "candidates s \<noteq> []"
    have "\<forall>e \<in> set (candidates s). 0 \<le> Start e" using candidates_ok by (auto simp: cand_ok_def)
    from resolveOverlaps_head[OF assms(1) c this] c
    show "recognize srt s \<noteq> []" by (simp add: recognize_eq[OF assms(1)])
  qed
  from ne h mn' first rec show ?thesis by blast
qed

theorem resolveOverlaps_commits_first_witness:
  "sorts (insertionSort :: (Entity \<Rightarrow> Entity \<Rightarrow> bool) \<Rightarrow> Entity list \<Rightarrow> Entity list)
   \<and> list_all offsets_ok
        [\<lparr>Text = ''c'', Start = 10, End = 15, Type = FIN, Labeled = False\<rparr>,
         \<lparr>Text = ''b'', Start = 5, End = 20, Type = IBAN, Labeled = False\<rparr>,
         \<lparr>Text = ''a'', Start = 0, End = 10, Type = VOEN, Labeled = False\<rparr>]
   \<and> resolveOverlaps insertionSort
        [\<lparr>Text = ''c'', Start = 10, End = 15, Type = FIN, Labeled = False\<rparr>,
         \<lparr>Text = ''b'', Start = 5, End = 20, Type = IBAN, Labeled = False\<rparr>,
         \<lparr>Text = ''a'', Start = 0, End = 10, Type = VOEN, Labeled = False\<rparr>] \<noteq> []
   \<and> \<lparr>Text = ''a'', Start = 0, End = 10, Type = VOEN, Labeled = False\<rparr>
       \<in> set (resolveOverlaps insertionSort
        [\<lparr>Text = ''c'', Start = 10, End = 15, Type = FIN, Labeled = False\<rparr>,
         \<lparr>Text = ''b'', Start = 5, End = 20, Type = IBAN, Labeled = False\<rparr>,
         \<lparr>Text = ''a'', Start = 0, End = 10, Type = VOEN, Labeled = False\<rparr>])
   \<and> candidates ''info@gov.az'' \<noteq> [] \<and> recognize insertionSort ''info@gov.az'' \<noteq> []"
proof -
  let ?a = "\<lparr>Text = ''a'', Start = 0, End = 10, Type = VOEN, Labeled = False\<rparr>"
  let ?b = "\<lparr>Text = ''b'', Start = 5, End = 20, Type = IBAN, Labeled = False\<rparr>"
  let ?c = "\<lparr>Text = ''c'', Start = 10, End = 15, Type = FIN, Labeled = False\<rparr>"
  have ok: "\<forall>e \<in> set [?c, ?b, ?a]. offsets_ok e" by (simp add: offsets_ok_def)
  have ne: "[?c, ?b, ?a] \<noteq> []" by simp
  have first: "\<forall>x \<in> set [?c, ?b, ?a]. x \<noteq> ?a \<longrightarrow> spec_before ?a x"
    by (simp add: spec_before_def)
  have cand: "candidates ''info@gov.az'' \<noteq> []" by code_simp
  from resolveOverlaps_commits_first[OF insertionSort_sorts ne ok, of "''info@gov.az''"]
    first cand ok insertionSort_sorts
  show ?thesis by simp
qed

end
